theory Spec2Isabelle
  imports Complex_Main "HOL-Library.Sublist"
begin

section \<open>GLISTER subset selection: the selection engine of \<open>GLISTERStrategy\<close>\<close>

text \<open>
  The development embeds \<^verbatim>\<open>glisterstrategy.py\<close>: the marginal gain evaluator
  (\<^verbatim>\<open>eval_taylor_modular\<close>), the validation gradient estimator
  (\<^verbatim>\<open>_update_grads_val\<close>), the in-place accumulation
  (\<^verbatim>\<open>_update_gradients_subset\<close>) and the three greedy loops of \<^verbatim>\<open>select\<close>.

  Conventions.
  \<^item> A float tensor is a list of reals (a matrix is the list of its rows); tensor
    arithmetic is exact, so rounding, overflow and NaN of the tensor entries are outside
    the model. The scalar computation of the Stochastic sample size is truncated to an
    integer, so there the rounding of the doubles decides the result: it is modelled in
    double precision (\<open>to_double\<close>).
  \<^item> Tensor shapes are taken to agree as the code expects (a cache of \<open>N\<close> rows of one
    width, a validation gradient of that width, a non-empty validation set); the shape
    errors torch would raise otherwise are not branches of the model.
  \<^item> A tensor that is a \<^emph>\<open>view\<close> of a cache row shares the row's storage. The local
    \<^verbatim>\<open>grads_currX\<close> is therefore a reference (\<open>tensor_ref\<close>), and the in-place
    \<^verbatim>\<open>+=\<close> writes through it.
  \<^item> The failures the selection loops can raise are values of \<open>error\<close>; a loop that
    never leaves is the value \<open>None\<close>.
\<close>

subsection \<open>Tensors\<close>

type_synonym vec = "real list"
type_synonym mat = "real list list"

definition vec_add :: "vec \<Rightarrow> vec \<Rightarrow> vec" where
  "vec_add a b = map2 (+) a b"

definition vec_sub :: "vec \<Rightarrow> vec \<Rightarrow> vec" where
  "vec_sub a b = map2 (-) a b"

definition vec_mul :: "vec \<Rightarrow> vec \<Rightarrow> vec" where
  "vec_mul a b = map2 (*) a b"

definition scale :: "real \<Rightarrow> vec \<Rightarrow> vec" where
  "scale k a = map ((*) k) a"

definition dot :: "vec \<Rightarrow> vec \<Rightarrow> real" where
  "dot a b = sum_list (map2 (*) a b)"

text \<open>The number of columns of a matrix (the second component of its shape).\<close>

definition width :: "mat \<Rightarrow> nat" where
  "width m = (case m of [] \<Rightarrow> 0 | row # _ \<Rightarrow> length row)"

text \<open>\<^verbatim>\<open>t[idxs]\<close> with a list of indices: advanced indexing, a fresh tensor of the rows.\<close>

definition rows :: "mat \<Rightarrow> nat list \<Rightarrow> mat" where
  "rows m idxs = map (\<lambda>i. m ! i) idxs"

text \<open>\<^verbatim>\<open>t.sum(dim=0)\<close> of a \<open>k \<times> D\<close> tensor: the zero vector of width \<open>D\<close> when \<open>k = 0\<close>.\<close>

definition sum_dim0 :: "nat \<Rightarrow> mat \<Rightarrow> vec" where
  "sum_dim0 D m = foldl vec_add (replicate D 0) m"

text \<open>\<^verbatim>\<open>torch.mean(t, dim=0)\<close>.\<close>

definition mean_dim0 :: "mat \<Rightarrow> vec" where
  "mean_dim0 m = map (\<lambda>j. sum_list (map (\<lambda>row. row ! j) m) / real (length m)) [0..<width m]"

text \<open>\<^verbatim>\<open>F.softmax(out, dim=1)\<close> on one row.\<close>

definition softmax :: "vec \<Rightarrow> vec" where
  "softmax row = map (\<lambda>x. exp x / sum_list (map exp row)) row"

text \<open>\<^verbatim>\<open>torch.zeros(n, num_classes).scatter_(1, targets.view(-1, 1), 1)\<close> on one row.\<close>

definition one_hot :: "nat \<Rightarrow> nat \<Rightarrow> vec" where
  "one_hot nc y = map (\<lambda>c. if c = y then 1 else 0) [0..<nc]"

text \<open>\<^verbatim>\<open>torch.repeat_interleave(t, k, dim=1)\<close> on one row: each entry \<open>k\<close> times.\<close>

definition repeat_interleave :: "nat \<Rightarrow> vec \<Rightarrow> vec" where
  "repeat_interleave k row = concat (map (replicate k) row)"

text \<open>\<^verbatim>\<open>t.repeat(1, k)\<close> on one row: the row \<open>k\<close> times.\<close>

definition tile :: "nat \<Rightarrow> vec \<Rightarrow> vec" where
  "tile k row = concat (replicate k row)"

text \<open>\<^verbatim>\<open>v.view(nc, -1)\<close>: a flat vector cut into \<open>nc\<close> rows of equal width.\<close>

definition view_rows :: "nat \<Rightarrow> vec \<Rightarrow> mat" where
  "view_rows nc v = map (\<lambda>c. take (length v div nc) (drop (c * (length v div nc)) v)) [0..<nc]"

subsection \<open>Python and library primitives\<close>

datatype error =
    ZeroDivisionError      \<comment> \<open>division by zero in \<^verbatim>\<open>budget / self.r\<close> or \<^verbatim>\<open>len(...) / budget\<close>\<close>
  | SampleError            \<comment> \<open>ValueError of \<^verbatim>\<open>np.random.choice\<close>: sample larger than the population, or negative size\<close>
  | ArgmaxEmpty            \<comment> \<open>\<^verbatim>\<open>torch.argmax\<close> of a tensor without elements\<close>
  | NegativeDimension      \<comment> \<open>\<^verbatim>\<open>torch.ones(budget)\<close> with a negative budget\<close>
  | UnboundLocalError      \<comment> \<open>\<^verbatim>\<open>grads_currX\<close> read before its first assignment\<close>

text \<open>\<^verbatim>\<open>int(x)\<close> of a float: truncation towards zero.\<close>

definition py_int :: "real \<Rightarrow> int" where
  "py_int x = (if 0 \<le> x then \<lfloor>x\<rfloor> else \<lceil>x\<rceil>)"

text \<open>
  A Python float is an IEEE double: 53 significant bits, rounded to nearest, ties to
  even. \<open>to_double x\<close> is the double nearest to the real \<open>x\<close>: with \<open>e\<close> the binary
  exponent of \<open>x\<close> (\<open>binade\<close>), the doubles around \<open>x\<close> are the integer multiples of
  \<open>2 ^ (e - 52)\<close> (\<open>ulp\<close>). The exponent is unbounded in the model: overflow and the
  subnormal range, far from the quantities rounded here, are left out.
\<close>

definition round_even :: "real \<Rightarrow> int" where
  "round_even y =
     (if y - of_int \<lfloor>y\<rfloor> < 1 / 2 then \<lfloor>y\<rfloor>
      else if 1 / 2 < y - of_int \<lfloor>y\<rfloor> then \<lfloor>y\<rfloor> + 1
      else if even \<lfloor>y\<rfloor> then \<lfloor>y\<rfloor> else \<lfloor>y\<rfloor> + 1)"

definition binade :: "real \<Rightarrow> int" where
  "binade x = \<lfloor>log 2 \<bar>x\<bar>\<rfloor>"

definition ulp :: "real \<Rightarrow> real" where
  "ulp x = 2 powr of_int (binade x - 52)"

definition to_double :: "real \<Rightarrow> real" where
  "to_double x = (if x = 0 then 0 else of_int (round_even (x / ulp x)) * ulp x)"

text \<open>
  \<^verbatim>\<open>math.log(100)\<close>: the double \<^verbatim>\<open>0x1.26bb1bbb55516p+2\<close> (4.605170185988092), which
  is \<open>ln 100\<close> correctly rounded (\<open>math_log_100_nearest\<close>).
\<close>

definition math_log_100 :: real where
  "math_log_100 = 5184960683398422 / 2 ^ 50"

text \<open>\<^verbatim>\<open>xs[0:k]\<close>: a negative \<open>k\<close> counts from the end.\<close>

definition py_slice_to :: "int \<Rightarrow> 'a list \<Rightarrow> 'a list" where
  "py_slice_to k xs = (if 0 \<le> k then take (nat k) xs else take (length xs - nat (- k)) xs)"

text \<open>
  \<^verbatim>\<open>torch.argmax(gains).item()\<close>: the index of the first maximal entry; an error on a
  tensor without elements.
\<close>

fun argmax_from :: "nat \<Rightarrow> real \<Rightarrow> nat \<Rightarrow> real list \<Rightarrow> nat" where
  "argmax_from best v i [] = best"
| "argmax_from best v i (x # xs) =
     (if v < x then argmax_from i x (Suc i) xs else argmax_from best v (Suc i) xs)"

definition argmax :: "real list \<Rightarrow> error + nat" where
  "argmax xs = (case xs of [] \<Rightarrow> Inl ArgmaxEmpty | x # rest \<Rightarrow> Inr (argmax_from 0 x 1 rest))"

text \<open>
  \<^verbatim>\<open>torch.sort(gains.view(-1), descending=True)\<close>, second component: the positions in
  descending order of their value. Positions of equal value are kept in ascending
  order (the tie-break the specification names; torch leaves it open).
\<close>

definition argsort_desc :: "real list \<Rightarrow> nat list" where
  "argsort_desc xs = sort_key (\<lambda>i. - (xs ! i)) [0..<length xs]"

text \<open>
  \<^verbatim>\<open>np.random.choice(pop, size=k, replace=False)\<close>. The global generator is a stream of
  naturals; a draw takes one number per sampled element and picks, among the elements
  still left, the one at that number modulo their count. Every ordered sample without
  repetition is the draw of some stream.
\<close>

type_synonym rng = "nat \<Rightarrow> nat"

definition remove_nth :: "nat \<Rightarrow> 'a list \<Rightarrow> 'a list" where
  "remove_nth i xs = take i xs @ drop (Suc i) xs"

fun draw :: "rng \<Rightarrow> 'a list \<Rightarrow> nat \<Rightarrow> 'a list" where
  "draw g pop 0 = []"
| "draw g pop (Suc k) =
     (case pop of [] \<Rightarrow> []
      | _ # _ \<Rightarrow> pop ! (g 0 mod length pop)
                 # draw (\<lambda>n. g (Suc n)) (remove_nth (g 0 mod length pop) pop) k)"

definition random_choice :: "rng \<Rightarrow> 'a list \<Rightarrow> int \<Rightarrow> error + ('a list \<times> rng)" where
  "random_choice g pop k =
     (if k < 0 \<or> int (length pop) < k then Inl SampleError
      else Inr (draw g pop (nat k), \<lambda>n. g (n + nat k)))"

subsection \<open>The selector object\<close>

text \<open>
  The attributes of \<^verbatim>\<open>self\<close> that a call never changes, with the two collaborators
  the module does not contain: the per-element gradients the base class computes from
  the loaded parameters, and the model's logits, embeddings and targets on the
  validation set (all batches, in order).
\<close>

record 'p selector =
  pool_gradients :: "'p \<Rightarrow> mat"
  val_forward :: "'p \<Rightarrow> mat \<times> mat \<times> nat list"
  embDim :: nat
  eta :: real
  num_classes :: nat
  linear_layer :: bool
  selection_type :: string
  r :: int

text \<open>
  \<^verbatim>\<open>grads_currX\<close> is unbound, a view of one row of \<^verbatim>\<open>self.grads_per_elem\<close>
  (\<^verbatim>\<open>self.grads_per_elem[bestId].view(1, -1)\<close>: integer indexing and \<^verbatim>\<open>view\<close> share
  storage), or a tensor of its own (\<^verbatim>\<open>self.grads_per_elem[selected_indices].sum(dim=0)\<close>).
\<close>

datatype tensor_ref = Unbound | RowView nat | Fresh vec

datatype event = UpdateModel | ComputeGradients | ValidationForward

text \<open>
  The mutable attributes of \<^verbatim>\<open>self\<close>, the generator of \<^verbatim>\<open>np.random\<close>, the calls made
  to the collaborators so far, and the locals of \<^verbatim>\<open>select\<close>.
\<close>

record 'p state =
  model_params :: 'p
  grads_per_elem :: mat
  grads_val_curr :: vec
  init_out :: mat
  init_l1 :: mat
  y_val :: "nat list"
  numSelected :: int
  rng :: rng
  calls :: "event list"
  greedySet :: "nat list"
  remainSet :: "nat list"
  grads_currX :: tensor_ref

text \<open>
  Modelled from the spec: \<^verbatim>\<open>update_model\<close>, \<^verbatim>\<open>compute_gradients\<close> and the attribute
  \<^verbatim>\<open>N_trn\<close> belong to the base class \<^verbatim>\<open>DataSelectionStrategy\<close>, which the module
  imports. The parameters are loaded; the cache is recomputed from them as one row per
  element of the pool, in index order; \<^verbatim>\<open>N_trn\<close> is the size of the pool.
\<close>

definition update_model :: "'p \<Rightarrow> 'p state \<Rightarrow> 'p state" where
  "update_model params st = st\<lparr>model_params := params, calls := calls st @ [UpdateModel]\<rparr>"

definition compute_gradients :: "'p selector \<Rightarrow> 'p state \<Rightarrow> 'p state" where
  "compute_gradients c st =
     st\<lparr>grads_per_elem := pool_gradients c (model_params st),
        calls := calls st @ [ComputeGradients]\<rparr>"

definition N_trn :: "'p state \<Rightarrow> nat" where
  "N_trn st = length (grads_per_elem st)"

subsection \<open>Validation gradient estimator\<close>

text \<open>
  The part both modes of \<^verbatim>\<open>_update_grads_val\<close> share: the residuals
  \<^verbatim>\<open>l0_grads\<close>, their products \<^verbatim>\<open>l1_grads\<close> with the embeddings when
  \<^verbatim>\<open>linear_layer\<close> is set, and the mean over the validation set.
\<close>

definition val_grads :: "'p selector \<Rightarrow> mat \<Rightarrow> mat \<Rightarrow> nat list \<Rightarrow> vec" where
  "val_grads c out l1 y =
     (let l0_grads = map2 vec_sub (map softmax out) (map (one_hot (num_classes c)) y)
      in if linear_layer c
         then mean_dim0 (map2 (@) l0_grads
                (map2 vec_mul (map (repeat_interleave (embDim c)) l0_grads)
                              (map (tile (num_classes c)) l1)))
         else mean_dim0 l0_grads)"

text \<open>\<^verbatim>\<open>_update_grads_val(first_init=True)\<close>.\<close>

definition update_grads_val_first_init :: "'p selector \<Rightarrow> 'p state \<Rightarrow> 'p state" where
  "update_grads_val_first_init c st =
     (case val_forward c (model_params st) of
        (out, l1, y) \<Rightarrow>
          st\<lparr>init_out := out, init_l1 := l1, y_val := y,
             grads_val_curr := val_grads c out l1 y,
             calls := calls st @ [ValidationForward]\<rparr>)"

text \<open>\<^verbatim>\<open>_update_grads_val(grads_currX)\<close>, with \<open>gx\<close> the vector \<^verbatim>\<open>grads_currX[0]\<close>.\<close>

definition out_vec :: "'p selector \<Rightarrow> vec \<Rightarrow> 'p state \<Rightarrow> mat" where
  "out_vec c gx st =
     (let out0 = map (\<lambda>row. vec_sub row (scale (eta c) (take (num_classes c) gx))) (init_out st)
      in if linear_layer c
         then map2 vec_sub out0
                (map (\<lambda>e. scale (eta c)
                         (map (dot e) (view_rows (num_classes c) (drop (num_classes c) gx))))
                     (init_l1 st))
         else out0)"

definition update_grads_val :: "'p selector \<Rightarrow> vec \<Rightarrow> 'p state \<Rightarrow> 'p state" where
  "update_grads_val c gx st =
     st\<lparr>grads_val_curr := val_grads c (out_vec c gx st) (init_l1 st) (y_val st)\<rparr>"

subsection \<open>Marginal gain evaluator\<close>

definition eval_taylor_modular :: "'p state \<Rightarrow> mat \<Rightarrow> real list" where
  "eval_taylor_modular st grads = map (\<lambda>g. dot g (grads_val_curr st)) grads"

subsection \<open>Cumulative selected gradient\<close>

text \<open>
  A step of a loop either fails, leaving the state as it was when the exception was
  raised, or goes on with a new state.
\<close>

type_synonym 'p run = "error option \<times> 'p state"

text \<open>Reading \<^verbatim>\<open>grads_currX[0]\<close>.\<close>

definition deref :: "'p state \<Rightarrow> error + vec" where
  "deref st =
     (case grads_currX st of
        Unbound \<Rightarrow> Inl UnboundLocalError
      | RowView i \<Rightarrow> Inr (grads_per_elem st ! i)
      | Fresh v \<Rightarrow> Inr v)"

text \<open>
  \<^verbatim>\<open>grads_X += grads_e\<close>: the addition is in place, so through a view it changes the
  row of the cache that the view shares.
\<close>

definition iadd :: "vec \<Rightarrow> 'p state \<Rightarrow> 'p run" where
  "iadd grads_e st =
     (case grads_currX st of
        Unbound \<Rightarrow> (Some UnboundLocalError, st)
      | RowView i \<Rightarrow>
          (None, st\<lparr>grads_per_elem :=
                        (grads_per_elem st)[i := vec_add (grads_per_elem st ! i) grads_e]\<rparr>)
      | Fresh v \<Rightarrow> (None, st\<lparr>grads_currX := Fresh (vec_add v grads_e)\<rparr>))"

datatype element = Single nat | Many "nat list"

fun update_gradients_subset :: "element \<Rightarrow> 'p state \<Rightarrow> 'p run" where
  "update_gradients_subset (Many element) st =
     iadd (sum_dim0 (width (grads_per_elem st)) (rows (grads_per_elem st) element)) st"
| "update_gradients_subset (Single element) st = iadd (grads_per_elem st ! element) st"

text \<open>The call \<^verbatim>\<open>self._update_grads_val(grads_currX)\<close> that ends every iteration.\<close>

definition refresh_grads_val :: "'p selector \<Rightarrow> 'p state \<Rightarrow> 'p run" where
  "refresh_grads_val c st =
     (case deref st of
        Inl e \<Rightarrow> (Some e, st)
      | Inr gx \<Rightarrow> (None, update_grads_val c gx st))"

subsection \<open>The three selection loops\<close>

text \<open>
  The two statements that move the winner, \<^verbatim>\<open>greedySet.append(bestId)\<close> and
  \<^verbatim>\<open>remainSet.remove(bestId)\<close>, and those that move a chunk,
  \<^verbatim>\<open>greedySet.extend(selected_indices)\<close> and
  \<^verbatim>\<open>[remainSet.remove(idx) for idx in selected_indices]\<close>. They are two statements in
  the source, the selected set first: in the state between them the elements moved are
  in both lists.
\<close>

definition greedySet_append :: "nat \<Rightarrow> 'p state \<Rightarrow> 'p state" where
  "greedySet_append bestId st = st\<lparr>greedySet := greedySet st @ [bestId]\<rparr>"

definition remainSet_remove :: "nat \<Rightarrow> 'p state \<Rightarrow> 'p state" where
  "remainSet_remove bestId st = st\<lparr>remainSet := remove1 bestId (remainSet st)\<rparr>"

definition greedySet_extend :: "nat list \<Rightarrow> 'p state \<Rightarrow> 'p state" where
  "greedySet_extend selected_indices st = st\<lparr>greedySet := greedySet st @ selected_indices\<rparr>"

definition remainSet_remove_all :: "nat list \<Rightarrow> 'p state \<Rightarrow> 'p state" where
  "remainSet_remove_all selected_indices st =
     st\<lparr>remainSet := foldl (\<lambda>xs idx. remove1 idx xs) (remainSet st) selected_indices\<rparr>"

text \<open>
  The statements that the Naive and the Stochastic loop share (lines 240 to 249 and
  264 to 273): commit \<^verbatim>\<open>bestId\<close>, count it, accumulate its gradient, refresh the
  validation gradient. On the first commit \<^verbatim>\<open>grads_currX\<close> becomes a view of the
  cache row of \<^verbatim>\<open>bestId\<close>.
\<close>

definition commit_one :: "'p selector \<Rightarrow> nat \<Rightarrow> 'p state \<Rightarrow> 'p run" where
  "commit_one c bestId st =
     (let st1 = remainSet_remove bestId (greedySet_append bestId st);
          st2 = st1\<lparr>numSelected := numSelected st1 + 1\<rparr>
      in case (if 1 < numSelected st2
               then update_gradients_subset (Single bestId) st2
               else (None, st2\<lparr>grads_currX := RowView bestId\<rparr>)) of
           (Some e, st3) \<Rightarrow> (Some e, st3)
         | (None, st3) \<Rightarrow> refresh_grads_val c st3)"

definition naive_step :: "'p selector \<Rightarrow> 'p state \<Rightarrow> 'p run" where
  "naive_step c st =
     (let rem_grads = rows (grads_per_elem st) (remainSet st);
          gains = eval_taylor_modular st rem_grads
      in case argmax gains of
           Inl e \<Rightarrow> (Some e, st)
         | Inr j \<Rightarrow> commit_one c (remainSet st ! j) st)"

definition stochastic_step :: "'p selector \<Rightarrow> int \<Rightarrow> 'p state \<Rightarrow> 'p run" where
  "stochastic_step c subset_size st =
     (case random_choice (rng st) (remainSet st) subset_size of
        Inl e \<Rightarrow> (Some e, st)
      | Inr (subset_selected, g) \<Rightarrow>
          (let st0 = st\<lparr>rng := g\<rparr>;
               rem_grads = rows (grads_per_elem st0) subset_selected;
               gains = eval_taylor_modular st0 rem_grads
           in case argmax gains of
                Inl e \<Rightarrow> (Some e, st0)
              | Inr j \<Rightarrow> commit_one c (subset_selected ! j) st0))"

definition rgreedy_step :: "'p selector \<Rightarrow> int \<Rightarrow> 'p state \<Rightarrow> 'p run" where
  "rgreedy_step c selection_size st =
     (let rem_grads = rows (grads_per_elem st) (remainSet st);
          gains = eval_taylor_modular st rem_grads;
          indices = argsort_desc gains;
          selected_indices = map (\<lambda>index. remainSet st ! index) (py_slice_to selection_size indices);
          st1 = remainSet_remove_all selected_indices (greedySet_extend selected_indices st)
      in case (if 0 < numSelected st1
               then update_gradients_subset (Many selected_indices) st1
               else (None, st1\<lparr>grads_currX :=
                       Fresh (sum_dim0 (width (grads_per_elem st1))
                                (rows (grads_per_elem st1) selected_indices))\<rparr>)) of
           (Some e, st2) \<Rightarrow> (Some e, st2)
         | (None, st2) \<Rightarrow>
             (case refresh_grads_val c st2 of
                (Some e, st3) \<Rightarrow> (Some e, st3)
              | (None, st3) \<Rightarrow> (None, st3\<lparr>numSelected := numSelected st3 + selection_size\<rparr>)))"

text \<open>\<^verbatim>\<open>while (self.numSelected < budget)\<close>, once per strategy.\<close>

function naive_loop :: "'p selector \<Rightarrow> int \<Rightarrow> 'p state \<Rightarrow> 'p run" where
  "naive_loop c budget st =
     (if numSelected st < budget
      then (case naive_step c st of
              (Some e, st') \<Rightarrow> (Some e, st')
            | (None, st') \<Rightarrow> naive_loop c budget st')
      else (None, st))"
  by pat_completeness auto
termination
proof (relation "measure (\<lambda>(c, budget, st). nat (budget - numSelected st))")
  show "wf (measure (\<lambda>(c :: 'p selector, budget, st :: 'p state). nat (budget - numSelected st)))"
    by simp
next
  fix c :: "'p selector" and budget :: int and st :: "'p state" and x and st'
  assume "numSelected st < budget" and "(x, st') = naive_step c st" and "x = None"
  then have "numSelected st' = numSelected st + 1"
    by (auto simp: naive_step_def commit_one_def greedySet_append_def remainSet_remove_def refresh_grads_val_def update_grads_val_def iadd_def Let_def
             split: sum.splits if_splits option.splits prod.splits tensor_ref.splits)
  with \<open>numSelected st < budget\<close>
  show "((c, budget, st'), (c, budget, st)) \<in> measure (\<lambda>(c, budget, st). nat (budget - numSelected st))"
    by simp
qed

function stochastic_loop :: "'p selector \<Rightarrow> int \<Rightarrow> int \<Rightarrow> 'p state \<Rightarrow> 'p run" where
  "stochastic_loop c budget subset_size st =
     (if numSelected st < budget
      then (case stochastic_step c subset_size st of
              (Some e, st') \<Rightarrow> (Some e, st')
            | (None, st') \<Rightarrow> stochastic_loop c budget subset_size st')
      else (None, st))"
  by pat_completeness auto
termination
proof (relation "measure (\<lambda>(c, budget, subset_size, st). nat (budget - numSelected st))")
  show "wf (measure (\<lambda>(c :: 'p selector, budget, subset_size :: int, st :: 'p state).
               nat (budget - numSelected st)))"
    by simp
next
  fix c :: "'p selector" and budget subset_size :: int and st :: "'p state" and x and st'
  assume "numSelected st < budget" and "(x, st') = stochastic_step c subset_size st" and "x = None"
  then have "numSelected st' = numSelected st + 1"
    by (auto simp: stochastic_step_def commit_one_def greedySet_append_def remainSet_remove_def refresh_grads_val_def update_grads_val_def iadd_def Let_def
             split: sum.splits if_splits option.splits prod.splits tensor_ref.splits)
  with \<open>numSelected st < budget\<close>
  show "((c, budget, subset_size, st'), (c, budget, subset_size, st))
          \<in> measure (\<lambda>(c, budget, subset_size, st). nat (budget - numSelected st))"
    by simp
qed

text \<open>
  The RGreedy loop adds \<^verbatim>\<open>selection_size\<close> to the counter, which need not be
  positive: the loop may never leave, and then its value is \<open>None\<close>.
\<close>

partial_function (option) rgreedy_loop ::
  "'p selector \<Rightarrow> int \<Rightarrow> int \<Rightarrow> 'p state \<Rightarrow> 'p run option" where
  "rgreedy_loop c budget selection_size st =
     (if numSelected st < budget
      then (case rgreedy_step c selection_size st of
              (Some e, st') \<Rightarrow> Some (Some e, st')
            | (None, st') \<Rightarrow> rgreedy_loop c budget selection_size st')
      else Some (None, st))"

subsection \<open>\<^verbatim>\<open>select\<close>\<close>

type_synonym 'p outcome = "(error + nat list \<times> vec) \<times> 'p state"

text \<open>\<^verbatim>\<open>return list(greedySet), torch.ones(budget)\<close>.\<close>

definition finish :: "int \<Rightarrow> 'p state \<Rightarrow> 'p outcome" where
  "finish budget st =
     (if budget < 0 then (Inl NegativeDimension, st)
      else (Inr (greedySet st, replicate (nat budget) 1), st))"

text \<open>
  \<^verbatim>\<open>selection_size = int(budget / self.r)\<close> (line 205): the quotient of two integers,
  truncated. The quotient is taken exact: rounding it to a double does not change the
  truncated value (\<open>selection_size_double\<close>, for \<open>0 \<le> budget < 2 ^ 53\<close> and \<open>r > 0\<close>).
\<close>

definition selection_size_of :: "'p selector \<Rightarrow> int \<Rightarrow> int" where
  "selection_size_of c budget = py_int (real_of_int budget / real_of_int (r c))"

text \<open>
  \<^verbatim>\<open>subset_size = int((len(self.grads_per_elem) / budget) * math.log(100))\<close> (line 231):
  the quotient is rounded to a double, so is its product with the double
  \<^verbatim>\<open>math.log(100)\<close>, and the result is truncated.
\<close>

definition subset_size_of :: "'p state \<Rightarrow> int \<Rightarrow> int" where
  "subset_size_of st budget =
     py_int (to_double
       (to_double (real (length (grads_per_elem st)) / real_of_int budget) * math_log_100))"

text \<open>The statements of \<^verbatim>\<open>select\<close> before the strategy is looked at (lines 186 to 198).\<close>

definition select_init :: "'p selector \<Rightarrow> 'p \<Rightarrow> 'p state \<Rightarrow> 'p state" where
  "select_init c params st =
     (let st1 = update_grads_val_first_init c (compute_gradients c (update_model params st))
      in st1\<lparr>numSelected := 0, greedySet := [], remainSet := [0..<N_trn st1],
             grads_currX := Unbound\<rparr>)"

definition select :: "'p selector \<Rightarrow> int \<Rightarrow> 'p \<Rightarrow> 'p state \<Rightarrow> 'p outcome option" where
  "select c budget params st =
     (let st0 = select_init c params st
      in if selection_type c = ''RGreedy'' then
           (if r c = 0 then Some (Inl ZeroDivisionError, st0)
            else case rgreedy_loop c budget (selection_size_of c budget) st0 of
                   None \<Rightarrow> None
                 | Some (Some e, st1) \<Rightarrow> Some (Inl e, st1)
                 | Some (None, st1) \<Rightarrow> Some (finish budget st1))
         else if selection_type c = ''Stochastic'' then
           (if budget = 0 then Some (Inl ZeroDivisionError, st0)
            else case stochastic_loop c budget (subset_size_of st0 budget) st0 of
                   (Some e, st1) \<Rightarrow> Some (Inl e, st1)
                 | (None, st1) \<Rightarrow> Some (finish budget st1))
         else if selection_type c = ''Naive'' then
           (case naive_loop c budget st0 of
              (Some e, st1) \<Rightarrow> Some (Inl e, st1)
            | (None, st1) \<Rightarrow> Some (finish budget st1))
         else Some (finish budget st0))"

subsection \<open>What a call returns\<close>

text \<open>
  The index sequence and the weight vector of a call that returns, the exception of a
  call that fails, and the state the call leaves behind; \<open>None\<close> where there is none.
\<close>

definition indices_of :: "'p outcome option \<Rightarrow> nat list option" where
  "indices_of out = (case out of Some (Inr (idx, w), st) \<Rightarrow> Some idx | _ \<Rightarrow> None)"

definition weights_of :: "'p outcome option \<Rightarrow> vec option" where
  "weights_of out = (case out of Some (Inr (idx, w), st) \<Rightarrow> Some w | _ \<Rightarrow> None)"

definition failure_of :: "'p outcome option \<Rightarrow> error option" where
  "failure_of out = (case out of Some (Inl e, st) \<Rightarrow> Some e | _ \<Rightarrow> None)"

definition state_of :: "'p outcome option \<Rightarrow> 'p state option" where
  "state_of out = map_option snd out"

subsection \<open>The states a call passes through\<close>

text \<open>
  One iteration of the loop that \<^verbatim>\<open>select\<close> runs for the configured strategy, from a
  state \<open>st\<close> at the loop head to the state \<open>st'\<close> at the next loop head, or to the
  state in which the iteration raised. \<open>st0\<close> is the state before the loop, from which
  the Stochastic sample size is computed once.
\<close>

definition iteration :: "'p selector \<Rightarrow> int \<Rightarrow> 'p state \<Rightarrow> 'p state \<Rightarrow> 'p state \<Rightarrow> bool" where
  "iteration c budget st0 st st' \<longleftrightarrow>
     numSelected st < budget \<and>
     (if selection_type c = ''RGreedy''
      then r c \<noteq> 0 \<and> st' = snd (rgreedy_step c (selection_size_of c budget) st)
      else if selection_type c = ''Stochastic''
      then budget \<noteq> 0 \<and> st' = snd (stochastic_step c (subset_size_of st0 budget) st)
      else selection_type c = ''Naive'' \<and> st' = snd (naive_step c st))"

definition visits :: "'p selector \<Rightarrow> int \<Rightarrow> 'p state \<Rightarrow> 'p state \<Rightarrow> bool" where
  "visits c budget st0 st \<longleftrightarrow> (iteration c budget st0)\<^sup>*\<^sup>* st0 st"

text \<open>
  The loop heads are not the only points of a call. Inside a Naive iteration that
  starts in \<open>st\<close>, the state after \<^verbatim>\<open>greedySet.append(bestId)\<close> (line 264) and before
  \<^verbatim>\<open>remainSet.remove(bestId)\<close> (line 265); there is none when the argmax raised.
\<close>

definition naive_after_append :: "'p state \<Rightarrow> 'p state option" where
  "naive_after_append st =
     (let rem_grads = rows (grads_per_elem st) (remainSet st);
          gains = eval_taylor_modular st rem_grads
      in case argmax gains of
           Inl e \<Rightarrow> None
         | Inr j \<Rightarrow> Some (greedySet_append (remainSet st ! j) st))"

text \<open>The elements that an RGreedy iteration commits.\<close>

definition rgreedy_pick :: "'p state \<Rightarrow> int \<Rightarrow> nat list" where
  "rgreedy_pick st selection_size =
     map (\<lambda>index. remainSet st ! index)
       (py_slice_to selection_size
          (argsort_desc (eval_taylor_modular st (rows (grads_per_elem st) (remainSet st)))))"

text \<open>The score of a pool element in a state: its entry in \<^verbatim>\<open>gains\<close>.\<close>

definition score :: "'p state \<Rightarrow> nat \<Rightarrow> real" where
  "score st i = dot (grads_per_elem st ! i) (grads_val_curr st)"

text \<open>
  The sum of the cache rows, as they stand in a state, over the selected set: what the
  cumulative selected gradient is to be compared with.
\<close>

definition selected_sum :: "'p state \<Rightarrow> vec" where
  "selected_sum st =
     sum_dim0 (width (grads_per_elem st)) (rows (grads_per_elem st) (greedySet st))"

subsection \<open>Invariants of the loops\<close>

text \<open>The selected and the remaining set partition the index range of the pool.\<close>

definition partitioned :: "'p state \<Rightarrow> bool" where
  "partitioned st \<longleftrightarrow>
     distinct (greedySet st @ remainSet st) \<and>
     set (greedySet st) \<union> set (remainSet st) = {0..<N_trn st}"

text \<open>
  In the Naive and the Stochastic loop the counter is the size of the selected set, and
  \<^verbatim>\<open>grads_currX\<close> is bound once an element has been selected.
\<close>

definition counted :: "'p state \<Rightarrow> bool" where
  "counted st \<longleftrightarrow>
     numSelected st = int (length (greedySet st)) \<and>
     (greedySet st \<noteq> [] \<longrightarrow> grads_currX st \<noteq> Unbound)"

text \<open>
  In the RGreedy loop with a chunk of \<open>s\<close> elements the counter is a multiple of \<open>s\<close>,
  and the selected set holds as many elements as the counter says, or the whole pool.
\<close>

definition rg_inv :: "int \<Rightarrow> 'p state \<Rightarrow> bool" where
  "rg_inv s st \<longleftrightarrow>
     partitioned st \<and> 0 \<le> numSelected st \<and> s dvd numSelected st \<and>
     (0 < numSelected st \<longrightarrow> grads_currX st \<noteq> Unbound) \<and>
     length (greedySet st) = min (N_trn st) (nat (numSelected st))"

text \<open>All rows of a matrix have its width, as the rows of a tensor do.\<close>

definition rectangular :: "mat \<Rightarrow> bool" where
  "rectangular m \<longleftrightarrow> (\<forall>row \<in> set m. length row = width m)"

text \<open>
  The cache is as the collaborator computed it, and \<^verbatim>\<open>grads_currX\<close> is a tensor of its
  own that holds the sum of the cache rows of the selected set (or is still unbound,
  before the first iteration).
\<close>

definition owns_sum :: "'p selector \<Rightarrow> 'p \<Rightarrow> 'p state \<Rightarrow> bool" where
  "owns_sum c params st \<longleftrightarrow>
     grads_per_elem st = pool_gradients c params \<and> 0 \<le> numSelected st \<and>
     (numSelected st = 0 \<longrightarrow> greedySet st = []) \<and>
     (grads_currX st = Fresh (selected_sum st) \<or> grads_currX st = Unbound \<and> numSelected st = 0)"

text \<open>A state with another generator and another record of earlier calls.\<close>

definition reseed :: "rng \<Rightarrow> event list \<Rightarrow> 'p state \<Rightarrow> 'p state" where
  "reseed g l st = st\<lparr>rng := g, calls := l\<rparr>"

subsection \<open>Concrete selectors and states\<close>

text \<open>
  A selector over a given cache, for two classes and without the linear-layer term,
  whose validation set is one element of class 0 with logits \<open>(0, 0)\<close>; and the state
  of a selector object on which \<^verbatim>\<open>select\<close> has not been called yet.
\<close>

definition example_selector :: "mat \<Rightarrow> string \<Rightarrow> int \<Rightarrow> unit selector" where
  "example_selector pool strategy chunk =
     \<lparr>pool_gradients = (\<lambda>_. pool), val_forward = (\<lambda>_. ([[0, 0]], [[]], [0])),
      embDim = 0, eta = 1, num_classes = 2, linear_layer = False,
      selection_type = strategy, r = chunk\<rparr>"

definition fresh_state :: "unit state" where
  "fresh_state =
     \<lparr>model_params = (), grads_per_elem = [], grads_val_curr = [], init_out = [],
      init_l1 = [], y_val = [], numSelected = 0, rng = (\<lambda>n. 0), calls = [],
      greedySet = [], remainSet = [], grads_currX = Unbound\<rparr>"

definition two_rows :: mat where
  "two_rows = [[1, 0], [0, 1]]"

definition one_row :: mat where
  "one_row = [[1, 0]]"

text \<open>
  A state in which a selector object can be after an earlier call: the cache, the
  counter, the generator and the record of calls are those the earlier call left.
\<close>

definition used_state :: "unit state" where
  "used_state =
     \<lparr>model_params = (), grads_per_elem = [[1, 0], [1, 1]], grads_val_curr = [1, 2],
      init_out = [[0, 0]], init_l1 = [[]], y_val = [0], numSelected = 2, rng = (\<lambda>n. 3 * n + 1),
      calls = [UpdateModel, ComputeGradients, ValidationForward],
      greedySet = [1, 0], remainSet = [], grads_currX = RowView 1\<rparr>"

section \<open>Properties of the primitives\<close>

subsection \<open>\<open>argmax\<close>\<close>

lemma argmax_from_bound: "best < i \<Longrightarrow> argmax_from best v i xs < i + length xs"
proof (induction xs arbitrary: best v i)
  case Nil
  then show ?case by simp
next
  case (Cons x xs)
  have a: "argmax_from i x (Suc i) xs < Suc i + length xs"
    by (rule Cons.IH) simp
  have b: "argmax_from best v (Suc i) xs < Suc i + length xs"
    by (rule Cons.IH) (use Cons.prems in simp)
  show ?case using a b by simp
qed

lemma argmax_empty: "argmax [] = Inl ArgmaxEmpty"
  by (simp add: argmax_def)

lemma argmax_nonempty: "xs \<noteq> [] \<Longrightarrow> \<exists>j. argmax xs = Inr j \<and> j < length xs"
  using argmax_from_bound [of 0 1 "hd xs" "tl xs"]
  by (cases xs) (auto simp: argmax_def)

lemma argmax_Inr_bound: "argmax xs = Inr j \<Longrightarrow> j < length xs"
  using argmax_nonempty [of xs] by (cases xs) (auto simp: argmax_def)

text \<open>
  The entries already seen are \<open>ys\<close>, of which \<open>v\<close>, at position \<open>best\<close>, is the
  greatest; the scan goes on over \<open>xs\<close>.
\<close>

lemma argmax_from_is_max:
  "i = length ys \<Longrightarrow> best < i \<Longrightarrow> v = ys ! best \<Longrightarrow> \<forall>y \<in> set ys. y \<le> v
   \<Longrightarrow> \<forall>y \<in> set (ys @ xs). y \<le> (ys @ xs) ! argmax_from best v i xs"
proof (induction xs arbitrary: best v i ys)
  case Nil
  then show ?case by simp
next
  case (Cons x xs)
  show ?case
  proof (cases "v < x")
    case True
    have "\<forall>y\<in>set ((ys @ [x]) @ xs). y \<le> ((ys @ [x]) @ xs) ! argmax_from i x (Suc i) xs"
      using Cons.prems True by (intro Cons.IH) (auto simp: nth_append)
    with True show ?thesis by simp
  next
    case False
    have "\<forall>y\<in>set ((ys @ [x]) @ xs). y \<le> ((ys @ [x]) @ xs) ! argmax_from best v (Suc i) xs"
      using Cons.prems False by (intro Cons.IH) (auto simp: nth_append)
    with False show ?thesis by simp
  qed
qed

lemma argmax_is_max: "argmax xs = Inr j \<Longrightarrow> \<forall>y \<in> set xs. y \<le> xs ! j"
proof (cases xs)
  case Nil
  then show ?thesis by simp
next
  case (Cons x rest)
  assume "argmax xs = Inr j"
  with Cons have j: "j = argmax_from 0 x 1 rest" by (simp add: argmax_def)
  have "\<forall>y \<in> set ([x] @ rest). y \<le> ([x] @ rest) ! argmax_from 0 x 1 rest"
    by (rule argmax_from_is_max) auto
  with Cons j show ?thesis by simp
qed

subsection \<open>Sampling without replacement\<close>

lemma draw_Suc:
  "pop \<noteq> [] \<Longrightarrow> draw g pop (Suc k) =
     pop ! (g 0 mod length pop) # draw (\<lambda>n. g (Suc n)) (remove_nth (g 0 mod length pop) pop) k"
  by (cases pop) simp_all

lemma draw_Nil: "draw g [] k = []"
  by (cases k) simp_all

lemma length_remove_nth: "i < length xs \<Longrightarrow> length (remove_nth i xs) = length xs - 1"
  by (simp add: remove_nth_def)

lemma set_remove_nth: "set (remove_nth i xs) \<subseteq> set xs"
  by (auto simp: remove_nth_def dest: in_set_takeD in_set_dropD)

lemma distinct_remove_nth: "distinct xs \<Longrightarrow> distinct (remove_nth i xs)"
  by (simp add: remove_nth_def set_take_disj_set_drop_if_distinct)

lemma nth_notin_remove_nth:
  assumes "distinct xs" and "i < length xs"
  shows "xs ! i \<notin> set (remove_nth i xs)"
proof -
  have "distinct (take i xs @ xs ! i # drop (Suc i) xs)"
    using assms id_take_nth_drop [of i xs] by simp
  then show ?thesis by (auto simp: remove_nth_def)
qed

lemma draw_length: "length (draw g pop k) = min k (length pop)"
proof (induction k arbitrary: g pop)
  case 0
  then show ?case by simp
next
  case (Suc k)
  show ?case
  proof (cases "pop = []")
    case True
    then show ?thesis by (simp add: draw_Nil)
  next
    case False
    let ?i = "g 0 mod length pop"
    have "?i < length pop" using False by simp
    then have "length (remove_nth ?i pop) = length pop - 1" by (rule length_remove_nth)
    moreover have "0 < length pop" using False by simp
    ultimately have "Suc (min k (length (remove_nth ?i pop))) = min (Suc k) (length pop)"
      by arith
    then show ?thesis
      unfolding draw_Suc [OF False] by (simp add: Suc.IH)
  qed
qed

lemma draw_subset: "set (draw g pop k) \<subseteq> set pop"
proof (induction k arbitrary: g pop)
  case 0
  then show ?case by simp
next
  case (Suc k)
  show ?case
  proof (cases "pop = []")
    case True
    then show ?thesis by (simp add: draw_Nil)
  next
    case False
    let ?i = "g 0 mod length pop"
    have "?i < length pop" using False by simp
    then have a: "pop ! ?i \<in> set pop" by (rule nth_mem)
    have "set (draw (\<lambda>n. g (Suc n)) (remove_nth ?i pop) k) \<subseteq> set (remove_nth ?i pop)"
      by (rule Suc.IH)
    then have b: "set (draw (\<lambda>n. g (Suc n)) (remove_nth ?i pop) k) \<subseteq> set pop"
      using set_remove_nth [of ?i pop] by (rule subset_trans)
    show ?thesis
      unfolding draw_Suc [OF False] using a b by simp
  qed
qed

lemma draw_distinct: "distinct pop \<Longrightarrow> distinct (draw g pop k)"
proof (induction k arbitrary: g pop)
  case 0
  then show ?case by simp
next
  case (Suc k)
  show ?case
  proof (cases "pop = []")
    case True
    then show ?thesis by (simp add: draw_Nil)
  next
    case False
    let ?i = "g 0 mod length pop"
    have i: "?i < length pop" using False by simp
    have "pop ! ?i \<notin> set (draw (\<lambda>n. g (Suc n)) (remove_nth ?i pop) k)"
      using nth_notin_remove_nth [OF Suc.prems i]
        draw_subset [of "\<lambda>n. g (Suc n)" "remove_nth ?i pop" k] by blast
    moreover have "distinct (draw (\<lambda>n. g (Suc n)) (remove_nth ?i pop) k)"
      by (rule Suc.IH) (rule distinct_remove_nth [OF Suc.prems])
    ultimately show ?thesis
      unfolding draw_Suc [OF False] by simp
  qed
qed

lemma set_remove_nth_eq:
  assumes "distinct xs" and "i < length xs"
  shows "set (remove_nth i xs) = set xs - {xs ! i}"
proof -
  have "xs = take i xs @ xs ! i # drop (Suc i) xs"
    using assms(2) by (rule id_take_nth_drop)
  then have "set xs = set (remove_nth i xs) \<union> {xs ! i}"
    unfolding remove_nth_def by (metis Un_insert_right list.simps(15) set_append sup_bot.right_neutral)
  with nth_notin_remove_nth [OF assms] show ?thesis by auto
qed

lemma draw_complete:
  "distinct pop \<Longrightarrow> distinct s \<Longrightarrow> set s \<subseteq> set pop \<Longrightarrow> \<exists>g. draw g pop (length s) = s"
proof (induction s arbitrary: pop)
  case Nil
  then show ?case by simp
next
  case (Cons a s)
  from Cons.prems(3) obtain i where i: "i < length pop" "pop ! i = a"
    by (auto simp: in_set_conv_nth)
  then have ne: "pop \<noteq> []" by auto
  have "set s \<subseteq> set (remove_nth i pop)"
    using Cons.prems set_remove_nth_eq [OF Cons.prems(1) i(1)] i(2) by auto
  with Cons.IH [OF distinct_remove_nth [OF Cons.prems(1)], of i] Cons.prems(2)
  obtain g' where g': "draw g' (remove_nth i pop) (length s) = s" by auto
  define g where "g = (\<lambda>n. case n of 0 \<Rightarrow> i | Suc m \<Rightarrow> g' m)"
  have g0: "g 0 mod length pop = i" using i(1) by (simp add: g_def)
  have gs: "(\<lambda>n. g (Suc n)) = g'" by (simp add: g_def)
  have "draw g pop (length (a # s)) = a # s"
    using draw_Suc [OF ne, of g "length s"] by (simp add: g0 gs g' i(2))
  then show ?case by blast
qed

section \<open>The call \<^verbatim>\<open>select\<close>\<close>

subsection \<open>Before the loop, and loops that do not iterate\<close>

declare naive_loop.simps [simp del] stochastic_loop.simps [simp del]

lemma naive_loop_done: "\<not> numSelected st < budget \<Longrightarrow> naive_loop c budget st = (None, st)"
  by (subst naive_loop.simps) simp

lemma naive_loop_iter:
  "numSelected st < budget \<Longrightarrow> naive_step c st = (None, st')
   \<Longrightarrow> naive_loop c budget st = naive_loop c budget st'"
  by (subst naive_loop.simps) simp

lemma naive_loop_fail:
  "numSelected st < budget \<Longrightarrow> naive_step c st = (Some e, st')
   \<Longrightarrow> naive_loop c budget st = (Some e, st')"
  by (subst naive_loop.simps) simp

lemma stochastic_loop_done:
  "\<not> numSelected st < budget \<Longrightarrow> stochastic_loop c budget k st = (None, st)"
  by (subst stochastic_loop.simps) simp

lemma stochastic_loop_iter:
  "numSelected st < budget \<Longrightarrow> stochastic_step c k st = (None, st')
   \<Longrightarrow> stochastic_loop c budget k st = stochastic_loop c budget k st'"
  by (subst stochastic_loop.simps) simp

lemma stochastic_loop_fail:
  "numSelected st < budget \<Longrightarrow> stochastic_step c k st = (Some e, st')
   \<Longrightarrow> stochastic_loop c budget k st = (Some e, st')"
  by (subst stochastic_loop.simps) simp

lemma select_init_fields:
  "numSelected (select_init c params st) = 0"
  "greedySet (select_init c params st) = []"
  "grads_currX (select_init c params st) = Unbound"
  "grads_per_elem (select_init c params st) = pool_gradients c params"
  "remainSet (select_init c params st) = [0..<length (pool_gradients c params)]"
  "rng (select_init c params st) = rng st"
  "calls (select_init c params st) = calls st @ [UpdateModel, ComputeGradients, ValidationForward]"
  by (simp_all add: select_init_def update_grads_val_first_init_def compute_gradients_def
        update_model_def N_trn_def Let_def split: prod.splits)

lemma finish_zero: "finish 0 st = (Inr (greedySet st, []), st)"
  by (simp add: finish_def)

lemma rgreedy_loop_done:
  "\<not> numSelected st < budget \<Longrightarrow> rgreedy_loop c budget s st = Some (None, st)"
  by (subst rgreedy_loop.simps) simp

lemma rgreedy_loop_iter:
  "numSelected st < budget \<Longrightarrow> rgreedy_step c s st = (None, st')
   \<Longrightarrow> rgreedy_loop c budget s st = rgreedy_loop c budget s st'"
  by (subst rgreedy_loop.simps) simp

lemma rgreedy_loop_fail:
  "numSelected st < budget \<Longrightarrow> rgreedy_step c s st = (Some e, st')
   \<Longrightarrow> rgreedy_loop c budget s st = Some (Some e, st')"
  by (subst rgreedy_loop.simps) simp

lemma select_budget_zero:
  assumes "selection_type c \<noteq> ''Stochastic''"
    and "selection_type c = ''RGreedy'' \<longrightarrow> r c \<noteq> 0"
  shows "select c 0 params st = Some (Inr ([], []), select_init c params st)"
  using assms
  by (simp add: select_def Let_def select_init_fields finish_zero rgreedy_loop_done
        naive_loop_done)

lemma select_stochastic_zero:
  "selection_type c = ''Stochastic'' \<Longrightarrow>
   select c 0 params st = Some (Inl ZeroDivisionError, select_init c params st)"
  by (simp add: select_def Let_def)


lemma selection_size_small:
  assumes "0 < budget" and "budget < r c"
  shows "selection_size_of c budget = 0"
proof -
  have "0 \<le> real_of_int budget / real_of_int (r c)"
    using assms by simp
  moreover have "real_of_int budget / real_of_int (r c) < 1"
    using assms by simp
  ultimately show ?thesis
    by (simp add: selection_size_of_def py_int_def floor_eq_iff)
qed

lemma rgreedy_step_zero:
  assumes "numSelected st \<le> 0"
  shows "\<exists>st'. rgreedy_step c 0 st = (None, st') \<and> numSelected st' = numSelected st
           \<and> greedySet st' = greedySet st \<and> remainSet st' = remainSet st"
  using assms
  by (simp add: rgreedy_step_def greedySet_extend_def remainSet_remove_all_def Let_def py_slice_to_def refresh_grads_val_def deref_def
        update_grads_val_def)

lemma rgreedy_loop_diverges_aux:
  assumes "rgreedy_loop c budget s st = Some y"
  shows "\<not> (s = 0 \<and> numSelected st \<le> 0 \<and> 0 < budget)"
proof (rule rgreedy_loop.raw_induct
    [where P = "\<lambda>c budget s st y. \<not> (s = 0 \<and> numSelected st \<le> 0 \<and> 0 < budget)", OF _ assms])
  fix loop :: "'a selector \<Rightarrow> int \<Rightarrow> int \<Rightarrow> 'a state \<Rightarrow> 'a run option"
  fix c budget s st y
  assume IH: "\<And>c budget s st y. loop c budget s st = Some y
                \<Longrightarrow> \<not> (s = 0 \<and> numSelected st \<le> 0 \<and> 0 < budget)"
    and body: "(if numSelected st < budget
                then case rgreedy_step c s st of
                       (None, st') \<Rightarrow> loop c budget s st'
                     | (Some e, st') \<Rightarrow> Some (Some e, st')
                else Some (None, st)) = Some y"
  show "\<not> (s = 0 \<and> numSelected st \<le> 0 \<and> 0 < budget)"
  proof
    assume a: "s = 0 \<and> numSelected st \<le> 0 \<and> 0 < budget"
    then obtain st' where st': "rgreedy_step c 0 st = (None, st')" "numSelected st' = numSelected st"
      using rgreedy_step_zero [of st c] by blast
    from a have lt: "numSelected st < budget" by simp
    from body lt st' a have "loop c budget s st' = Some y"
      by simp
    then have "\<not> (s = 0 \<and> numSelected st' \<le> 0 \<and> 0 < budget)"
      by (rule IH)
    with a st' show False by simp
  qed
qed

lemma rgreedy_loop_diverges:
  "numSelected st \<le> 0 \<Longrightarrow> 0 < budget \<Longrightarrow> rgreedy_loop c budget 0 st = None"
  using rgreedy_loop_diverges_aux [of c budget 0 st] by (cases "rgreedy_loop c budget 0 st") auto

lemma select_rgreedy_diverges:
  assumes "selection_type c = ''RGreedy''" and "0 < budget" and "budget < r c"
  shows "select c budget params st = None"
proof -
  have "r c \<noteq> 0" using assms by simp
  moreover have "rgreedy_loop c budget 0 (select_init c params st) = None"
    by (rule rgreedy_loop_diverges) (simp_all add: select_init_fields assms)
  ultimately show ?thesis
    using assms by (simp add: select_def Let_def selection_size_small)
qed

subsection \<open>Committing one element; the Naive loop\<close>

lemma commit_one_props:
  assumes "counted st"
  shows "\<exists>st'. commit_one c b st = (None, st')
           \<and> greedySet st' = greedySet st @ [b]
           \<and> remainSet st' = remove1 b (remainSet st)
           \<and> numSelected st' = numSelected st + 1
           \<and> grads_currX st' \<noteq> Unbound
           \<and> length (grads_per_elem st') = length (grads_per_elem st)
           \<and> rng st' = rng st \<and> calls st' = calls st"
proof (cases "greedySet st = []")
  case True
  with assms have "numSelected st = 0" by (simp add: counted_def)
  then show ?thesis
    by (simp add: commit_one_def greedySet_append_def remainSet_remove_def Let_def refresh_grads_val_def deref_def update_grads_val_def)
next
  case False
  with assms have n: "0 < numSelected st" and b: "grads_currX st \<noteq> Unbound"
    by (simp_all add: counted_def)
  show ?thesis
  proof (cases "grads_currX st")
    case Unbound
    with b show ?thesis by simp
  next
    case (RowView i)
    with n show ?thesis
      by (simp add: commit_one_def greedySet_append_def remainSet_remove_def Let_def iadd_def refresh_grads_val_def deref_def
            update_grads_val_def)
  next
    case (Fresh v)
    with n show ?thesis
      by (simp add: commit_one_def greedySet_append_def remainSet_remove_def Let_def iadd_def refresh_grads_val_def deref_def
            update_grads_val_def)
  qed
qed

lemma partitioned_length:
  assumes "partitioned st"
  shows "length (greedySet st) + length (remainSet st) = N_trn st"
proof -
  have "length (greedySet st @ remainSet st) = card (set (greedySet st @ remainSet st))"
    using assms by (simp only: partitioned_def distinct_card)
  also have "\<dots> = card {0..<N_trn st}"
    using assms by (simp add: partitioned_def)
  finally show ?thesis by simp
qed

lemma partitioned_move:
  assumes "partitioned st" and "b \<in> set (remainSet st)"
    and "greedySet st' = greedySet st @ [b]"
    and "remainSet st' = remove1 b (remainSet st)"
    and "N_trn st' = N_trn st"
  shows "partitioned st'"
proof -
  from assms(1) have d: "distinct (greedySet st)" "distinct (remainSet st)"
    "set (greedySet st) \<inter> set (remainSet st) = {}"
    and u: "set (greedySet st) \<union> set (remainSet st) = {0..<N_trn st}"
    by (simp_all add: partitioned_def)
  have "set (remove1 b (remainSet st)) = set (remainSet st) - {b}"
    using d(2) by (rule set_remove1_eq)
  with d u assms(2-5) show ?thesis
    by (auto simp: partitioned_def)
qed

lemma counted_after:
  assumes "counted st" and "greedySet st' = greedySet st @ [b]"
    and "numSelected st' = numSelected st + 1" and "grads_currX st' \<noteq> Unbound"
  shows "counted st'"
  using assms by (simp add: counted_def)

lemma length_gains [simp]: "length (eval_taylor_modular st (rows m idxs)) = length idxs"
  by (simp add: eval_taylor_modular_def rows_def)

lemma naive_step_empty: "remainSet st = [] \<Longrightarrow> naive_step c st = (Some ArgmaxEmpty, st)"
  by (simp add: naive_step_def Let_def rows_def eval_taylor_modular_def argmax_def)

lemma naive_step_props:
  assumes "partitioned st" and "counted st" and "remainSet st \<noteq> []"
  shows "\<exists>st'. naive_step c st = (None, st')
           \<and> partitioned st' \<and> counted st'
           \<and> numSelected st' = numSelected st + 1
           \<and> length (greedySet st') = Suc (length (greedySet st))
           \<and> N_trn st' = N_trn st \<and> rng st' = rng st \<and> calls st' = calls st"
proof -
  let ?gains = "eval_taylor_modular st (rows (grads_per_elem st) (remainSet st))"
  have "?gains \<noteq> []" using assms(3) by (simp add: eval_taylor_modular_def rows_def)
  then obtain j where j: "argmax ?gains = Inr j" "j < length ?gains"
    using argmax_nonempty by blast
  then have mem: "remainSet st ! j \<in> set (remainSet st)" by simp
  from commit_one_props [OF assms(2), of c "remainSet st ! j"]
  obtain st' where st': "commit_one c (remainSet st ! j) st = (None, st')"
    "greedySet st' = greedySet st @ [remainSet st ! j]"
    "remainSet st' = remove1 (remainSet st ! j) (remainSet st)"
    "numSelected st' = numSelected st + 1"
    "grads_currX st' \<noteq> Unbound"
    "length (grads_per_elem st') = length (grads_per_elem st)"
    "rng st' = rng st" "calls st' = calls st"
    by blast
  have n: "N_trn st' = N_trn st" using st'(6) by (simp add: N_trn_def)
  have "naive_step c st = (None, st')"
    using j(1) st'(1) by (simp add: naive_step_def Let_def)
  moreover have "partitioned st'"
    using assms(1) mem st'(2,3) n by (rule partitioned_move)
  moreover have "counted st'"
    using assms(2) st'(2,4,5) by (rule counted_after)
  ultimately show ?thesis using st' n by simp
qed

lemma naive_loop_ok:
  "partitioned st \<Longrightarrow> counted st \<Longrightarrow> budget \<le> int (N_trn st)
   \<Longrightarrow> \<exists>st'. naive_loop c budget st = (None, st') \<and> partitioned st' \<and> counted st'
           \<and> numSelected st' = max budget (numSelected st)
           \<and> N_trn st' = N_trn st \<and> calls st' = calls st"
proof (induction c budget st rule: naive_loop.induct)
  case (1 c budget st)
  show ?case
  proof (cases "numSelected st < budget")
    case False
    with 1 show ?thesis by (simp add: naive_loop_done)
  next
    case True
    have "int (length (greedySet st)) < int (N_trn st)"
      using True "1.prems" by (simp add: counted_def)
    then have "remainSet st \<noteq> []"
      using partitioned_length [OF "1.prems"(1)] by auto
    from naive_step_props [OF "1.prems"(1,2) this, of c]
    obtain st1 where st1: "naive_step c st = (None, st1)" "partitioned st1" "counted st1"
      "numSelected st1 = numSelected st + 1" "N_trn st1 = N_trn st" "calls st1 = calls st"
      by blast
    have "\<exists>st'. naive_loop c budget st1 = (None, st') \<and> partitioned st' \<and> counted st'
           \<and> numSelected st' = max budget (numSelected st1)
           \<and> N_trn st' = N_trn st1 \<and> calls st' = calls st1"
      using True st1 "1.prems"(3) by (intro "1.IH" [of None st1]) simp_all
    then obtain st' where "naive_loop c budget st1 = (None, st')" "partitioned st'" "counted st'"
      "numSelected st' = max budget (numSelected st1)" "N_trn st' = N_trn st1" "calls st' = calls st1"
      by blast
    with True st1 show ?thesis
      by (simp add: naive_loop_iter [OF True st1(1)])
  qed
qed

subsection \<open>The Stochastic loop; the Naive and the Stochastic call\<close>

lemma random_choice_ok:
  "0 \<le> k \<Longrightarrow> k \<le> int (length pop)
   \<Longrightarrow> random_choice g pop k = Inr (draw g pop (nat k), \<lambda>n. g (n + nat k))"
  by (simp add: random_choice_def)

lemma random_choice_too_large:
  "int (length pop) < k \<Longrightarrow> random_choice g pop k = Inl SampleError"
  by (simp add: random_choice_def)

lemma stochastic_step_too_large:
  "int (length (remainSet st)) < k \<Longrightarrow> stochastic_step c k st = (Some SampleError, st)"
  by (simp add: stochastic_step_def random_choice_too_large)

lemma partitioned_rng [simp]: "partitioned (st\<lparr>rng := g\<rparr>) = partitioned st"
  by (simp add: partitioned_def N_trn_def)

lemma counted_rng [simp]: "counted (st\<lparr>rng := g\<rparr>) = counted st"
  by (simp add: counted_def)

lemma stochastic_step_props:
  assumes "partitioned st" and "counted st" and "0 < k" and "k \<le> int (length (remainSet st))"
  shows "\<exists>st'. stochastic_step c k st = (None, st')
           \<and> partitioned st' \<and> counted st'
           \<and> numSelected st' = numSelected st + 1
           \<and> N_trn st' = N_trn st \<and> calls st' = calls st"
proof -
  let ?sample = "draw (rng st) (remainSet st) (nat k)"
  let ?g = "\<lambda>n. rng st (n + nat k)"
  let ?st0 = "st\<lparr>rng := ?g\<rparr>"
  let ?gains = "eval_taylor_modular ?st0 (rows (grads_per_elem ?st0) ?sample)"
  have rc: "random_choice (rng st) (remainSet st) k = Inr (?sample, ?g)"
    using assms(3,4) by (simp add: random_choice_ok)
  have len: "length ?sample = nat k"
    using assms(3,4) by (simp add: draw_length)
  then have "?sample \<noteq> []" using assms(3) by auto
  then have "?gains \<noteq> []" by (simp add: eval_taylor_modular_def rows_def)
  then obtain j where j: "argmax ?gains = Inr j" "j < length ?gains"
    using argmax_nonempty by blast
  then have "?sample ! j \<in> set ?sample" by simp
  then have mem: "?sample ! j \<in> set (remainSet ?st0)"
    using draw_subset [of "rng st" "remainSet st" "nat k"] by auto
  have c0: "counted ?st0" and p0: "partitioned ?st0" using assms(1,2) by simp_all
  from commit_one_props [OF c0, of c "?sample ! j"]
  obtain st' where st': "commit_one c (?sample ! j) ?st0 = (None, st')"
    "greedySet st' = greedySet ?st0 @ [?sample ! j]"
    "remainSet st' = remove1 (?sample ! j) (remainSet ?st0)"
    "numSelected st' = numSelected ?st0 + 1"
    "grads_currX st' \<noteq> Unbound"
    "length (grads_per_elem st') = length (grads_per_elem ?st0)"
    "calls st' = calls ?st0"
    by blast
  have n: "N_trn st' = N_trn ?st0" using st'(6) by (simp add: N_trn_def)
  have "stochastic_step c k st = (None, st')"
    using rc j(1) st'(1) by (simp add: stochastic_step_def Let_def)
  moreover have "partitioned st'"
    using p0 mem st'(2,3) n by (rule partitioned_move)
  moreover have "counted st'"
    using c0 st'(2,4,5) by (rule counted_after)
  ultimately show ?thesis using st' n by (simp add: N_trn_def)
qed

lemma stochastic_loop_ok:
  "partitioned st \<Longrightarrow> counted st \<Longrightarrow> budget \<le> int (N_trn st) \<Longrightarrow> 0 < k
   \<Longrightarrow> k \<le> int (N_trn st) - budget + 1
   \<Longrightarrow> \<exists>st'. stochastic_loop c budget k st = (None, st') \<and> partitioned st' \<and> counted st'
           \<and> numSelected st' = max budget (numSelected st)
           \<and> N_trn st' = N_trn st \<and> calls st' = calls st"
proof (induction c budget k st rule: stochastic_loop.induct)
  case (1 c budget k st)
  show ?case
  proof (cases "numSelected st < budget")
    case False
    with 1 show ?thesis by (simp add: stochastic_loop_done)
  next
    case True
    have "int (length (greedySet st)) < budget"
      using True "1.prems" by (simp add: counted_def)
    then have "k \<le> int (length (remainSet st))"
      using partitioned_length [OF "1.prems"(1)] "1.prems"(5) by linarith
    from stochastic_step_props [OF "1.prems"(1,2,4) this, of c]
    obtain st1 where st1: "stochastic_step c k st = (None, st1)" "partitioned st1" "counted st1"
      "numSelected st1 = numSelected st + 1" "N_trn st1 = N_trn st" "calls st1 = calls st"
      by blast
    have "\<exists>st'. stochastic_loop c budget k st1 = (None, st') \<and> partitioned st' \<and> counted st'
           \<and> numSelected st' = max budget (numSelected st1)
           \<and> N_trn st' = N_trn st1 \<and> calls st' = calls st1"
      using True st1 "1.prems"(3,4,5) by (intro "1.IH" [of None st1]) simp_all
    then obtain st' where "stochastic_loop c budget k st1 = (None, st')" "partitioned st'"
      "counted st'" "numSelected st' = max budget (numSelected st1)" "N_trn st' = N_trn st1"
      "calls st' = calls st1"
      by blast
    with True st1 show ?thesis
      by (simp add: stochastic_loop_iter [OF True st1(1)])
  qed
qed

lemma select_init_partitioned: "partitioned (select_init c params st)"
  by (auto simp: partitioned_def N_trn_def select_init_fields)

lemma select_init_counted: "counted (select_init c params st)"
  by (simp add: counted_def select_init_fields)

lemma select_init_N_trn: "N_trn (select_init c params st) = length (pool_gradients c params)"
  by (simp add: N_trn_def select_init_fields)

lemma counted_length: "counted st \<Longrightarrow> 0 \<le> numSelected st \<Longrightarrow> length (greedySet st) = nat (numSelected st)"
  by (simp add: counted_def)

lemma select_naive_ok:
  assumes "selection_type c = ''Naive''" and "0 \<le> budget"
    and "budget \<le> int (length (pool_gradients c params))"
  shows "\<exists>idx st'. select c budget params st = Some (Inr (idx, replicate (nat budget) 1), st')
           \<and> length idx = nat budget \<and> partitioned st' \<and> greedySet st' = idx"
proof -
  let ?st0 = "select_init c params st"
  from naive_loop_ok [OF select_init_partitioned select_init_counted, of budget c params st c]
  obtain st' where st': "naive_loop c budget ?st0 = (None, st')" "partitioned st'" "counted st'"
    "numSelected st' = max budget (numSelected ?st0)"
    using assms(3) by (auto simp: select_init_N_trn)
  have "numSelected st' = budget" using st'(4) assms(2) by (simp add: select_init_fields)
  then have "length (greedySet st') = nat budget"
    using st'(3) by (simp add: counted_def)
  moreover have "select c budget params st = Some (Inr (greedySet st', replicate (nat budget) 1), st')"
    using assms(1,2) st'(1) by (simp add: select_def Let_def finish_def)
  ultimately show ?thesis using st'(2) by blast
qed

lemma select_stochastic_ok:
  assumes "selection_type c = ''Stochastic''" and "0 < budget"
    and "budget \<le> int (length (pool_gradients c params))"
    and "0 < subset_size_of (select_init c params st) budget"
    and "subset_size_of (select_init c params st) budget
           \<le> int (length (pool_gradients c params)) - budget + 1"
  shows "\<exists>idx st'. select c budget params st = Some (Inr (idx, replicate (nat budget) 1), st')
           \<and> length idx = nat budget \<and> partitioned st' \<and> greedySet st' = idx"
proof -
  let ?st0 = "select_init c params st"
  let ?k = "subset_size_of ?st0 budget"
  from stochastic_loop_ok [OF select_init_partitioned select_init_counted, of budget c params st ?k c]
  obtain st' where st': "stochastic_loop c budget ?k ?st0 = (None, st')" "partitioned st'"
    "counted st'" "numSelected st' = max budget (numSelected ?st0)"
    using assms(3,4,5) by (auto simp: select_init_N_trn)
  have "numSelected st' = budget" using st'(4) assms(2) by (simp add: select_init_fields)
  then have "length (greedySet st') = nat budget"
    using st'(3) by (simp add: counted_def)
  moreover have "select c budget params st = Some (Inr (greedySet st', replicate (nat budget) 1), st')"
    using assms(1,2) st'(1) by (simp add: select_def Let_def finish_def)
  ultimately show ?thesis using st'(2) by blast
qed

lemma select_stochastic_too_large:
  assumes "selection_type c = ''Stochastic''" and "0 < budget"
    and "int (length (pool_gradients c params)) < subset_size_of (select_init c params st) budget"
  shows "select c budget params st = Some (Inl SampleError, select_init c params st)"
proof -
  let ?st0 = "select_init c params st"
  have "stochastic_step c (subset_size_of ?st0 budget) ?st0 = (Some SampleError, ?st0)"
    using assms(3) by (intro stochastic_step_too_large) (simp add: select_init_fields)
  moreover have "numSelected ?st0 < budget" using assms(2) by (simp add: select_init_fields)
  ultimately have "stochastic_loop c budget (subset_size_of ?st0 budget) ?st0 = (Some SampleError, ?st0)"
    by (simp add: stochastic_loop_fail)
  then show ?thesis using assms(1,2) by (simp add: select_def Let_def)
qed

subsection \<open>The constant \<open>ln 100\<close>\<close>

lemma exp_9_2_less: "exp (9 / 2 :: real) < 100"
proof -
  have "exp (1 / 32 :: real) \<le> 1 + 1 / 32 + (1 / 32)\<^sup>2"
    by (rule exp_bound) simp_all
  then have "exp (1 / 32 :: real) ^ 144 \<le> (1 + 1 / 32 + (1 / 32)\<^sup>2) ^ 144"
    by (intro power_mono) simp_all
  moreover have "exp (9 / 2 :: real) = exp (1 / 32) ^ 144"
    using exp_of_nat_mult [of 144 "1 / 32 :: real"] by simp
  moreover have "(1 + 1 / 32 + (1 / 32)\<^sup>2 :: real) ^ 144 < 100"
    by (simp add: power2_eq_square power_divide)
  ultimately show ?thesis by linarith
qed

lemma exp_5_greater: "100 < exp (5 :: real)"
proof -
  have "1 + 5 / 8 + (5 / 8)\<^sup>2 / 2 \<le> exp (5 / 8 :: real)"
    by (rule exp_lower_Taylor_quadratic) simp
  then have "(1 + 5 / 8 + (5 / 8)\<^sup>2 / 2 :: real) ^ 8 \<le> exp (5 / 8) ^ 8"
    by (intro power_mono) simp_all
  moreover have "exp (5 :: real) = exp (5 / 8) ^ 8"
    using exp_of_nat_mult [of 8 "5 / 8 :: real"] by simp
  moreover have "100 < (1 + 5 / 8 + (5 / 8)\<^sup>2 / 2 :: real) ^ 8"
    by (simp add: power2_eq_square power_divide)
  ultimately show ?thesis by linarith
qed

lemma ln_100_lower: "9 / 2 < ln (100 :: real)"
proof -
  have "exp (9 / 2 :: real) < exp (ln 100)" using exp_9_2_less by simp
  then show ?thesis by (simp only: exp_less_cancel_iff)
qed

lemma ln_100_upper: "ln (100 :: real) < 5"
proof -
  have "exp (ln 100 :: real) < exp 5" using exp_5_greater by simp
  then show ?thesis by (simp only: exp_less_cancel_iff)
qed

lemma round_ln_100: "round (ln (100 :: real)) = 5"
  using ln_100_lower ln_100_upper by (simp add: round_def floor_eq_iff)

text \<open>
  The bounds that place \<open>ln 100\<close> between two neighbouring midpoints of doubles: the
  Taylor polynomial of degree 15 of \<open>exp\<close> at a sixteenth of the argument, with the
  powers rounded to 100 binary digits.
\<close>

lemma exp_taylor_lower:
  fixes x :: real
  assumes "0 \<le> x"
  shows "(\<Sum>m<n. x ^ m / fact m) \<le> exp x"
proof -
  from Maclaurin_exp_le [of x n]
  obtain t where t: "exp x = (\<Sum>m<n. x ^ m / fact m) + exp t / fact n * x ^ n" by blast
  have "0 \<le> exp t / fact n * x ^ n" using assms by simp
  with t show ?thesis by linarith
qed

lemma exp_taylor_upper:
  fixes x :: real
  assumes "0 \<le> x" and "x \<le> 1 / 2"
  shows "exp x \<le> (\<Sum>m<n. x ^ m / fact m) + 2 * x ^ n / fact n"
proof -
  from Maclaurin_exp_le [of x n]
  obtain t where t: "\<bar>t\<bar> \<le> \<bar>x\<bar>" "exp x = (\<Sum>m<n. x ^ m / fact m) + exp t / fact n * x ^ n"
    by blast
  have "t \<le> 1 / 2" using t(1) assms by linarith
  then have "exp t \<le> exp (1 / 2)" by simp
  moreover have "exp (1 / 2 :: real) \<le> 1 + 1 / 2 + (1 / 2)\<^sup>2" by (rule exp_bound) simp_all
  ultimately have "exp t \<le> 1 + 1 / 2 + (1 / 2)\<^sup>2" by (rule order_trans)
  also have "\<dots> \<le> (2::real)" by (simp add: power2_eq_square)
  finally have "exp t \<le> 2" .
  then have "exp t * (x ^ n / fact n) \<le> 2 * (x ^ n / fact n)"
    using assms(1) by (intro mult_right_mono) simp_all
  with t(2) show ?thesis by simp
qed

lemma taylor_16:
  fixes x :: real
  shows "(\<Sum>m<16. x ^ m / fact m) = 1 + x + x ^ 2 / 2 + x ^ 3 / 6 + x ^ 4 / 24 + x ^ 5 / 120 + x ^ 6 / 720 + x ^ 7 / 5040 + x ^ 8 / 40320 + x ^ 9 / 362880 + x ^ 10 / 3628800 + x ^ 11 / 39916800 + x ^ 12 / 479001600 + x ^ 13 / 6227020800 + x ^ 14 / 87178291200 + x ^ 15 / 1307674368000"
  by (simp add: eval_nat_numeral)

lemma fact_16: "fact 16 = (20922789888000 :: real)"
  by (simp add: fact_numeral)

lemma exp_below_100: "exp (10369921366796843 / 2 ^ 51 :: real) < 100"
proof -
  define x :: real where "x = 10369921366796843 / 2 ^ 55"
  have x0: "0 \<le> x" and xh: "x \<le> 1 / 2" by (simp_all add: x_def)
  have p1: "x \<le> 10369921366796843 / 2 ^ 55" by (simp add: x_def)
  have p2: "x ^ 2 \<le> 105014911282763383260478549577 / 2 ^ 100" by (simp add: x_def power_divide)
  have p3: "x ^ 3 \<le> 3778215144715362213365722051 / 2 ^ 97" by (simp add: x_def power_divide)
  have p4: "x ^ 4 \<le> 8699661870345934054997866279 / 2 ^ 100" by (simp add: x_def power_divide)
  have p5: "x ^ 5 \<le> 1251981983546702870578624347 / 2 ^ 99" by (simp add: x_def power_divide)
  have p6: "x ^ 6 \<le> 720698763002938649134938285 / 2 ^ 100" by (simp add: x_def power_divide)
  have p7: "x ^ 7 \<le> 207433778528726897118470557 / 2 ^ 100" by (simp add: x_def power_divide)
  have p8: "x ^ 8 \<le> 7463030097244920285620283 / 2 ^ 97" by (simp add: x_def power_divide)
  have p9: "x ^ 9 \<le> 17184261850482056543176663 / 2 ^ 100" by (simp add: x_def power_divide)
  have p10: "x ^ 10 \<le> 4946028146378282206242257 / 2 ^ 100" by (simp add: x_def power_divide)
  have p11: "x ^ 11 \<le> 711790667461225269251525 / 2 ^ 99" by (simp add: x_def power_divide)
  have p12: "x ^ 12 \<le> 409739645057124807602373 / 2 ^ 100" by (simp add: x_def power_divide)
  have p13: "x ^ 13 \<le> 7370784364978179641193 / 2 ^ 96" by (simp add: x_def power_divide)
  have p14: "x ^ 14 \<le> 33943716404944679392635 / 2 ^ 100" by (simp add: x_def power_divide)
  have p15: "x ^ 15 \<le> 2442446731088845577419 / 2 ^ 98" by (simp add: x_def power_divide)
  have p16: "x ^ 16 \<le> 2811970716718606186701 / 2 ^ 100" by (simp add: x_def power_divide)
  have "exp x \<le> (\<Sum>m<16. x ^ m / fact m) + 2 * x ^ 16 / fact 16"
    using x0 xh by (rule exp_taylor_upper)
  also have "\<dots> \<le> 1 + (10369921366796843 / 2 ^ 55) + (105014911282763383260478549577 / 2 ^ 100) / 2 + (3778215144715362213365722051 / 2 ^ 97) / 6 + (8699661870345934054997866279 / 2 ^ 100) / 24 + (1251981983546702870578624347 / 2 ^ 99) / 120 + (720698763002938649134938285 / 2 ^ 100) / 720 + (207433778528726897118470557 / 2 ^ 100) / 5040 + (7463030097244920285620283 / 2 ^ 97) / 40320 + (17184261850482056543176663 / 2 ^ 100) / 362880 + (4946028146378282206242257 / 2 ^ 100) / 3628800 + (711790667461225269251525 / 2 ^ 99) / 39916800 + (409739645057124807602373 / 2 ^ 100) / 479001600 + (7370784364978179641193 / 2 ^ 96) / 6227020800 + (33943716404944679392635 / 2 ^ 100) / 87178291200 + (2442446731088845577419 / 2 ^ 98) / 1307674368000 + 2 * (2811970716718606186701 / 2 ^ 100) / 20922789888000"
    unfolding taylor_16 fact_16
    by (intro add_mono divide_right_mono mult_left_mono order_refl p1 p2 p3 p4 p5 p6 p7 p8 p9 p10 p11 p12 p13 p14 p15 p16) simp_all
  also have "\<dots> \<le> 422609810974761449109583470007 / 2 ^ 98"
    by simp
  finally have "exp x \<le> 422609810974761449109583470007 / 2 ^ 98" .
  then have "exp x ^ 16 \<le> (422609810974761449109583470007 / 2 ^ 98) ^ 16"
    by (intro power_mono) simp_all
  moreover have "exp (10369921366796843 / 2 ^ 51 :: real) = exp x ^ 16"
    using exp_of_nat_mult [of 16 x] by (simp add: x_def)
  moreover have "(422609810974761449109583470007 / 2 ^ 98 :: real) ^ 16 < 100"
    by (simp add: power_divide)
  ultimately show ?thesis by linarith
qed

lemma exp_above_100: "100 < exp (10369921366796845 / 2 ^ 51 :: real)"
proof -
  define x :: real where "x = 10369921366796845 / 2 ^ 55"
  have x0: "0 \<le> x" by (simp add: x_def)
  have p1: "10369921366796845 / 2 ^ 55 \<le> x" by (simp add: x_def)
  have p2: "52507455641381711883991944313 / 2 ^ 99 \<le> x ^ 2" by (simp add: x_def power_divide)
  have p3: "30225721157722915195421641671 / 2 ^ 100 \<le> x ^ 3" by (simp add: x_def power_divide)
  have p4: "8699661870345940766456179319 / 2 ^ 100 \<le> x ^ 4" by (simp add: x_def power_divide)
  have p5: "2503963967093408155798477421 / 2 ^ 100 \<le> x ^ 5" by (simp add: x_def power_divide)
  have p6: "720698763002939483122473013 / 2 ^ 100 \<le> x ^ 6" by (simp add: x_def power_divide)
  have p7: "51858444632181794291549183 / 2 ^ 98 \<le> x ^ 7" by (simp add: x_def power_divide)
  have p8: "29852120388979727202032533 / 2 ^ 99 \<le> x ^ 8" by (simp add: x_def power_divide)
  have p9: "17184261850482086371436913 / 2 ^ 100 \<le> x ^ 9" by (simp add: x_def power_divide)
  have p10: "154563379574321617044495 / 2 ^ 95 \<le> x ^ 10" by (simp add: x_def power_divide)
  have p11: "711790667461226779329965 / 2 ^ 99 \<le> x ^ 11" by (simp add: x_def power_divide)
  have p12: "409739645057125755898037 / 2 ^ 100 \<le> x ^ 12" by (simp add: x_def power_divide)
  have p13: "117932549839651169945639 / 2 ^ 100 \<le> x ^ 13" by (simp add: x_def power_divide)
  have p14: "33943716404944771044637 / 2 ^ 100 \<le> x ^ 14" by (simp add: x_def power_divide)
  have p15: "1221223365544426321687 / 2 ^ 97 \<le> x ^ 15" by (simp add: x_def power_divide)
  have "1690439243899045890276293600353 / 2 ^ 100 \<le> (1 + (10369921366796845 / 2 ^ 55) + (52507455641381711883991944313 / 2 ^ 99) / 2 + (30225721157722915195421641671 / 2 ^ 100) / 6 + (8699661870345940766456179319 / 2 ^ 100) / 24 + (2503963967093408155798477421 / 2 ^ 100) / 120 + (720698763002939483122473013 / 2 ^ 100) / 720 + (51858444632181794291549183 / 2 ^ 98) / 5040 + (29852120388979727202032533 / 2 ^ 99) / 40320 + (17184261850482086371436913 / 2 ^ 100) / 362880 + (154563379574321617044495 / 2 ^ 95) / 3628800 + (711790667461226779329965 / 2 ^ 99) / 39916800 + (409739645057125755898037 / 2 ^ 100) / 479001600 + (117932549839651169945639 / 2 ^ 100) / 6227020800 + (33943716404944771044637 / 2 ^ 100) / 87178291200 + (1221223365544426321687 / 2 ^ 97) / 1307674368000 :: real)"
    by simp
  also have "\<dots> \<le> (\<Sum>m<16. x ^ m / fact m)"
    unfolding taylor_16
    by (intro add_mono divide_right_mono order_refl p1 p2 p3 p4 p5 p6 p7 p8 p9 p10 p11 p12 p13 p14 p15) simp_all
  also have "\<dots> \<le> exp x"
    using x0 by (rule exp_taylor_lower)
  finally have "1690439243899045890276293600353 / 2 ^ 100 \<le> exp x" .
  then have "(1690439243899045890276293600353 / 2 ^ 100) ^ 16 \<le> exp x ^ 16"
    by (intro power_mono) simp_all
  moreover have "exp (10369921366796845 / 2 ^ 51 :: real) = exp x ^ 16"
    using exp_of_nat_mult [of 16 x] by (simp add: x_def)
  moreover have "100 < (1690439243899045890276293600353 / 2 ^ 100 :: real) ^ 16"
    by (simp add: power_divide)
  ultimately show ?thesis by linarith
qed

lemma ln_100_window:
  "10369921366796843 / 2 ^ 51 < ln (100 :: real)" "ln (100 :: real) < 10369921366796845 / 2 ^ 51"
proof -
  have "exp (10369921366796843 / 2 ^ 51 :: real) < exp (ln 100)" using exp_below_100 by simp
  then show "10369921366796843 / 2 ^ 51 < ln (100 :: real)" by (simp only: exp_less_cancel_iff)
  have "exp (ln 100 :: real) < exp (10369921366796845 / 2 ^ 51)" using exp_above_100 by simp
  then show "ln (100 :: real) < 10369921366796845 / 2 ^ 51" by (simp only: exp_less_cancel_iff)
qed

subsection \<open>Double precision\<close>

lemma round_even_of_int [simp]: "round_even (of_int m) = m"
  by (simp add: round_even_def)

lemma round_even_error: "\<bar>of_int (round_even y) - y\<bar> \<le> 1 / 2"
  unfolding round_even_def by (auto simp: abs_if) linarith+

lemma binade_eq:
  assumes "2 powr of_int e \<le> \<bar>x\<bar>" and "\<bar>x\<bar> < 2 powr of_int (e + 1)"
  shows "binade x = e"
proof -
  have "0 < 2 powr (of_int e :: real)" by simp
  with assms(1) have pos: "0 < \<bar>x\<bar>" by linarith
  have "of_int e \<le> log 2 \<bar>x\<bar>"
    using assms(1) pos by (simp add: le_log_iff)
  moreover have "log 2 \<bar>x\<bar> < of_int (e + 1)"
    using assms(2) pos by (simp add: log_less_iff del: of_int_add)
  ultimately show ?thesis
    unfolding binade_def by (simp add: floor_eq_iff)
qed

lemma binade_bounds:
  assumes "x \<noteq> 0"
  shows "2 powr of_int (binade x) \<le> \<bar>x\<bar>" and "\<bar>x\<bar> < 2 powr of_int (binade x + 1)"
proof -
  have pos: "0 < \<bar>x\<bar>" using assms by simp
  have "of_int (binade x) \<le> log 2 \<bar>x\<bar>" by (simp add: binade_def)
  then show "2 powr of_int (binade x) \<le> \<bar>x\<bar>" using pos by (simp add: le_log_iff)
  have "log 2 \<bar>x\<bar> < of_int (binade x + 1)" unfolding binade_def by linarith
  then show "\<bar>x\<bar> < 2 powr of_int (binade x + 1)" using pos by (simp add: log_less_iff del: of_int_add)
qed

lemma powr_of_int_add: "2 powr (of_int (a + b) :: real) = 2 powr of_int a * 2 powr of_int b"
  by (simp add: powr_add)

lemma to_double_exact:
  fixes m k :: int
  assumes "2 ^ 52 \<le> \<bar>m\<bar>" and "\<bar>m\<bar> < 2 ^ 53"
  shows "to_double (of_int m * 2 powr of_int k) = of_int m * 2 powr of_int k"
proof -
  let ?x = "of_int m * 2 powr (of_int k :: real)"
  have m0: "m \<noteq> 0" using assms(1) by auto
  have ax: "\<bar>?x\<bar> = of_int \<bar>m\<bar> * 2 powr of_int k" by (simp add: abs_mult)
  have lo: "2 powr of_int (k + 52) \<le> \<bar>?x\<bar>"
  proof -
    have "(2 ^ 52 :: real) \<le> of_int \<bar>m\<bar>" using assms(1) by (metis of_int_le_iff of_int_numeral of_int_power)
    then have "2 ^ 52 * 2 powr of_int k \<le> of_int \<bar>m\<bar> * 2 powr (of_int k :: real)"
      by (intro mult_right_mono) simp_all
    then show ?thesis unfolding ax by (simp add: powr_add mult.commute)
  qed
  have hi: "\<bar>?x\<bar> < 2 powr of_int (k + 52 + 1)"
  proof -
    have "of_int \<bar>m\<bar> < (2 ^ 53 :: real)" using assms(2) by (metis of_int_less_iff of_int_numeral of_int_power)
    then have "of_int \<bar>m\<bar> * 2 powr (of_int k :: real) < 2 ^ 53 * 2 powr of_int k"
      by (intro mult_strict_right_mono) simp_all
    then show ?thesis unfolding ax by (simp add: powr_add mult.commute)
  qed
  have "binade ?x = k + 52" using lo hi by (rule binade_eq)
  then have u: "ulp ?x = 2 powr of_int k" by (simp add: ulp_def)
  have "?x \<noteq> 0" using m0 by simp
  then show ?thesis by (simp add: to_double_def u)
qed

lemma to_double_error:
  assumes "x \<noteq> 0"
  shows "\<bar>to_double x - x\<bar> \<le> \<bar>x\<bar> / 2 ^ 53"
proof -
  have u0: "0 < ulp x" by (simp add: ulp_def)
  have "\<bar>of_int (round_even (x / ulp x)) - x / ulp x\<bar> * ulp x \<le> 1 / 2 * ulp x"
    using round_even_error [of "x / ulp x"] u0 by (intro mult_right_mono) simp_all
  moreover have "\<bar>of_int (round_even (x / ulp x)) - x / ulp x\<bar> * ulp x
      = \<bar>of_int (round_even (x / ulp x)) * ulp x - x\<bar>"
  proof -
    have "\<bar>of_int (round_even (x / ulp x)) - x / ulp x\<bar> * ulp x
        = \<bar>(of_int (round_even (x / ulp x)) - x / ulp x) * ulp x\<bar>"
      using u0 by (simp add: abs_mult)
    also have "(of_int (round_even (x / ulp x)) - x / ulp x) * ulp x
        = of_int (round_even (x / ulp x)) * ulp x - x"
      using u0 by (simp add: left_diff_distrib)
    finally show ?thesis .
  qed
  ultimately have e: "\<bar>to_double x - x\<bar> \<le> ulp x / 2"
    using assms by (simp add: to_double_def)
  have "ulp x = 2 powr of_int (binade x) / 2 ^ 52"
    by (simp add: ulp_def powr_diff)
  also have "\<dots> \<le> \<bar>x\<bar> / 2 ^ 52"
    using binade_bounds(1) [OF assms] by (simp add: divide_right_mono)
  finally have "ulp x / 2 \<le> \<bar>x\<bar> / 2 ^ 53" by simp
  with e show ?thesis by linarith
qed

lemma to_double_lower:
  assumes "0 < x"
  shows "x * (1 - 1 / 2 ^ 53) \<le> to_double x"
proof -
  have "\<bar>to_double x - x\<bar> \<le> \<bar>x\<bar> / 2 ^ 53"
    using assms by (intro to_double_error) simp
  moreover have "\<bar>x\<bar> = x" using assms by simp
  ultimately have "x - x / 2 ^ 53 \<le> to_double x" by linarith
  moreover have "x * (1 - 1 / 2 ^ 53) = x - x / 2 ^ 53" by (simp add: right_diff_distrib)
  ultimately show ?thesis by (simp only:)
qed

lemma to_double_1: "to_double 1 = 1"
  using to_double_exact [of "2 ^ 52" "- 52"] by (simp add: powr_minus divide_simps)

lemma to_double_2: "to_double 2 = 2"
  using to_double_exact [of "2 ^ 52" "- 51"] by (simp add: powr_minus divide_simps)

lemma to_double_log_100: "to_double math_log_100 = math_log_100"
  using to_double_exact [of 5184960683398422 "- 50"]
  by (simp add: math_log_100_def powr_minus divide_simps)

lemma to_double_2_log_100: "to_double (2 * math_log_100) = 2 * math_log_100"
  using to_double_exact [of 5184960683398422 "- 49"]
  by (simp add: math_log_100_def powr_minus divide_simps)

lemma round_even_eq:
  assumes "of_int m - 1 / 2 < y" and "y < of_int m + 1 / 2"
  shows "round_even y = m"
proof -
  have "\<lfloor>y\<rfloor> = m \<or> \<lfloor>y\<rfloor> = m - 1" using assms by linarith
  then show ?thesis
  proof
    assume f: "\<lfloor>y\<rfloor> = m"
    then have "y - of_int \<lfloor>y\<rfloor> < 1 / 2" using assms by simp
    with f show ?thesis by (simp add: round_even_def)
  next
    assume f: "\<lfloor>y\<rfloor> = m - 1"
    then have "1 / 2 < y - of_int \<lfloor>y\<rfloor>" using assms by simp
    with f show ?thesis by (simp add: round_even_def)
  qed
qed

lemma to_double_eval:
  assumes "2 powr of_int e \<le> \<bar>x\<bar>" and "\<bar>x\<bar> < 2 powr of_int (e + 1)"
    and "of_int m - 1 / 2 < x / 2 powr of_int (e - 52)"
    and "x / 2 powr of_int (e - 52) < of_int m + 1 / 2"
  shows "to_double x = of_int m * 2 powr of_int (e - 52)"
proof -
  have b: "binade x = e" using assms(1,2) by (rule binade_eq)
  have "0 < 2 powr (of_int e :: real)" by simp
  with assms(1) have "x \<noteq> 0" by auto
  moreover have "round_even (x / 2 powr of_int (e - 52)) = m"
    using assms(3,4) by (rule round_even_eq)
  ultimately show ?thesis by (simp add: to_double_def ulp_def b)
qed

text \<open>\<^verbatim>\<open>math.log(100)\<close> is \<open>ln 100\<close> correctly rounded.\<close>

lemma math_log_100_nearest: "to_double (ln 100) = math_log_100"
proof -
  have "to_double (ln 100) = of_int 5184960683398422 * 2 powr of_int (2 - 52)"
    using ln_100_lower ln_100_upper ln_100_window
    by (intro to_double_eval) (simp_all add: powr_minus_divide)
  then show ?thesis by (simp add: math_log_100_def powr_minus_divide)
qed

lemma to_double_nonneg: "0 \<le> x \<Longrightarrow> 0 \<le> to_double x"
proof (cases "x = 0")
  case True
  then show ?thesis by (simp add: to_double_def)
next
  case False
  assume "0 \<le> x"
  with False have pos: "0 < x" by simp
  have "0 \<le> x * (1 - 1 / 2 ^ 53)" using pos by simp
  with to_double_lower [OF pos] show ?thesis by linarith
qed

text \<open>
  Integers below \<open>2 ^ 53\<close> are doubles, and the double quotient of a non-negative
  integer below \<open>2 ^ 53\<close> by a positive integer truncates to the same integer as the
  exact quotient: \<^verbatim>\<open>int(budget / self.r)\<close> loses nothing to rounding.
\<close>

lemma to_double_of_int:
  fixes n :: int
  assumes "0 < n" and "n < 2 ^ 53"
  shows "to_double (of_int n) = of_int n"
proof -
  let ?x = "of_int n :: real"
  have x0: "?x \<noteq> 0" using assms(1) by simp
  have ax: "\<bar>?x\<bar> = ?x" using assms(1) by simp
  note bb = binade_bounds [OF x0]
  have "2 powr of_int (binade ?x) \<le> ?x" using bb(1) ax by simp
  moreover have "?x < 2 ^ 53" using assms(2) by (metis of_int_less_iff of_int_numeral of_int_power)
  ultimately have "2 powr of_int (binade ?x) < (2::real) powr 53" by simp
  then have "real_of_int (binade ?x) < 53" by (simp only: powr_less_cancel_iff) 
  then have e: "binade ?x \<le> 52" by simp
  define k where "k = nat (52 - binade ?x)"
  have bk: "binade ?x - 52 = - int k" using e by (simp add: k_def)
  have u: "ulp ?x = 1 / 2 ^ k"
    unfolding ulp_def bk by (simp add: powr_minus powr_realpow divide_simps)
  have "?x / ulp ?x = of_int (n * 2 ^ k)" by (simp add: u)
  then have "round_even (?x / ulp ?x) = n * 2 ^ k" by (simp only: round_even_of_int)
  then show ?thesis using x0 by (simp add: to_double_def u)
qed

lemma truncated_quotient_double:
  fixes b d :: int
  assumes "0 \<le> b" and "b < 2 ^ 53" and "0 < d"
  shows "py_int (to_double (real_of_int b / real_of_int d)) = py_int (real_of_int b / real_of_int d)"
proof -
  define x where "x = real_of_int b / real_of_int d"
  define n where "n = \<lfloor>x\<rfloor>"
  have x0: "0 \<le> x" using assms(1,3) by (simp add: x_def)
  have dpos: "0 < real_of_int d" using assms(3) by simp
  have bx: "real_of_int b = x * real_of_int d" using assms(3) by (simp add: x_def)
  have n0: "0 \<le> n" using x0 by (simp add: n_def)
  have "of_int n \<le> to_double x \<and> to_double x < of_int n + 1"
  proof (cases "x = of_int n")
    case True
    show ?thesis
    proof (cases "n = 0")
      case True
      with \<open>x = of_int n\<close> show ?thesis by (simp add: to_double_def)
    next
      case False
      with n0 have np: "0 < n" by simp
      have "real_of_int n * real_of_int d \<le> real_of_int b" using True bx by simp
      moreover have "real_of_int n * 1 \<le> real_of_int n * real_of_int d"
        using n0 assms(3) by (intro mult_left_mono) simp_all
      ultimately have "real_of_int n \<le> real_of_int b" by simp
      then have "n \<le> b" by simp
      with assms(2) have "n < 2 ^ 53" by simp
      with np have "to_double (of_int n) = of_int n" by (rule to_double_of_int)
      with True show ?thesis by simp
    qed
  next
    case False
    then have lt: "of_int n < x" unfolding n_def by linarith
    have ub: "x < of_int n + 1" unfolding n_def by linarith
    have xp: "0 < x" using lt n0 by linarith
    have "of_int n * real_of_int d < x * real_of_int d"
      using lt dpos by (rule mult_strict_right_mono)
    then have "real_of_int (n * d) < real_of_int b"
      by (simp add: bx)
    then have "n * d < b" by (simp only: of_int_less_iff)
    then have "n * d + 1 \<le> b" by simp
    then have "real_of_int (n * d + 1) \<le> real_of_int b" by (simp only: of_int_le_iff)
    then have "real_of_int (n * d + 1) / real_of_int d \<le> real_of_int b / real_of_int d"
      using dpos by (intro divide_right_mono) simp_all
    moreover have "real_of_int (n * d + 1) / real_of_int d = of_int n + 1 / real_of_int d"
      using dpos by (simp add: add_divide_distrib)
    ultimately have lo: "of_int n + 1 / real_of_int d \<le> x"
      by (simp only: x_def)
    have "x * real_of_int d < (of_int n + 1) * real_of_int d"
      using ub dpos by (rule mult_strict_right_mono)
    then have "real_of_int b < real_of_int ((n + 1) * d)"
      by (simp add: bx)
    then have "b < (n + 1) * d" by (simp only: of_int_less_iff)
    then have "b + 1 \<le> (n + 1) * d" by simp
    then have "real_of_int (b + 1) \<le> real_of_int ((n + 1) * d)" by (simp only: of_int_le_iff)
    then have "real_of_int (b + 1) / real_of_int d \<le> real_of_int ((n + 1) * d) / real_of_int d"
      using dpos by (intro divide_right_mono) simp_all
    moreover have "real_of_int (b + 1) / real_of_int d = x + 1 / real_of_int d"
      by (simp add: x_def add_divide_distrib)
    moreover have "real_of_int ((n + 1) * d) / real_of_int d = of_int n + 1"
      using dpos by simp
    ultimately have hi: "x + 1 / real_of_int d \<le> of_int n + 1"
      by (simp only:)
    have "real_of_int b < 2 ^ 53"
      using assms(2) by (metis of_int_less_iff of_int_numeral of_int_power)
    then have "real_of_int b / 2 ^ 53 < 1" by simp
    then have "real_of_int b / 2 ^ 53 / real_of_int d < 1 / real_of_int d"
      using dpos by (rule divide_strict_right_mono)
    moreover have "real_of_int b / 2 ^ 53 / real_of_int d = x / 2 ^ 53"
      by (simp add: x_def)
    ultimately have "x / 2 ^ 53 < 1 / real_of_int d" by (simp only:)
    moreover have "\<bar>to_double x - x\<bar> \<le> \<bar>x\<bar> / 2 ^ 53"
      using xp by (intro to_double_error) simp
    moreover have "\<bar>x\<bar> = x" using xp by simp
    ultimately have "\<bar>to_double x - x\<bar> < 1 / real_of_int d" by linarith
    with lo hi show ?thesis by linarith
  qed
  then have "\<lfloor>to_double x\<rfloor> = n" by (simp add: floor_eq_iff)
  moreover have "0 \<le> to_double x" using x0 by (rule to_double_nonneg)
  ultimately show ?thesis using x0 by (simp add: py_int_def n_def x_def)
qed

lemma selection_size_double:
  assumes "0 \<le> budget" and "budget < 2 ^ 53" and "0 < r c"
  shows "py_int (to_double (real_of_int budget / real_of_int (r c))) = selection_size_of c budget"
  using truncated_quotient_double [OF assms] by (simp add: selection_size_of_def)

lemma math_log_100_bounds: "9 / 2 < math_log_100" "math_log_100 < 5"
  by (simp_all add: math_log_100_def)

lemma quotient_double: "to_double (47069680 / 633) = 5109958577774036 / 2 ^ 36"
  using to_double_eval [of 16 "47069680 / 633" 5109958577774036]
  by (simp add: powr_minus_divide)

lemma product_double: "to_double (5109958577774036 / 2 ^ 36 * math_log_100) = 342439"
  using to_double_eval [of 18 "5109958577774036 / 2 ^ 36 * math_log_100" 5883057223499776]
  by (simp add: powr_minus_divide math_log_100_def)

subsection \<open>The Stochastic sample size\<close>

lemma subset_size_floor:
  assumes "0 < budget"
  shows "subset_size_of st budget
     = \<lfloor>to_double
         (to_double (real (length (grads_per_elem st)) / real_of_int budget) * math_log_100)\<rfloor>"
proof -
  have "0 \<le> real (length (grads_per_elem st)) / real_of_int budget"
    using assms by simp
  then have "0 \<le> to_double (real (length (grads_per_elem st)) / real_of_int budget)"
    by (rule to_double_nonneg)
  moreover have "0 \<le> math_log_100" by (simp add: math_log_100_def)
  ultimately have
    "0 \<le> to_double (real (length (grads_per_elem st)) / real_of_int budget) * math_log_100"
    by (rule mult_nonneg_nonneg)
  then have "0 \<le> to_double
      (to_double (real (length (grads_per_elem st)) / real_of_int budget) * math_log_100)"
    by (rule to_double_nonneg)
  then show ?thesis by (simp add: subset_size_of_def py_int_def)
qed

lemma subset_size_ge_4:
  assumes "0 < budget" and "budget \<le> int (length (grads_per_elem st))"
  shows "4 \<le> subset_size_of st budget"
proof -
  define q where "q = real (length (grads_per_elem st)) / real_of_int budget"
  define u :: real where "u = 1 - 1 / 2 ^ 53"
  have u: "0 < u" "u * u * math_log_100 \<ge> 4"
    by (simp_all add: u_def math_log_100_def)
  have c: "0 < math_log_100" by (simp add: math_log_100_def)
  have q: "1 \<le> q" using assms by (simp add: q_def)
  then have "0 < q" by simp
  then have "q * u \<le> to_double q"
    unfolding u_def by (rule to_double_lower)
  moreover have "1 * u \<le> q * u" using q u(1) by (intro mult_right_mono) simp_all
  ultimately have a: "u \<le> to_double q" by simp
  have "0 \<le> math_log_100" using c by simp
  with a have b: "u * math_log_100 \<le> to_double q * math_log_100"
    by (rule mult_right_mono)
  have "0 < to_double q" using a u(1) by linarith
  then have "0 < to_double q * math_log_100"
    using c by (rule mult_pos_pos)
  then have d: "to_double q * math_log_100 * u \<le> to_double (to_double q * math_log_100)"
    unfolding u_def by (rule to_double_lower)
  have "0 \<le> u" using u(1) by simp
  with b have "u * math_log_100 * u \<le> to_double q * math_log_100 * u"
    by (rule mult_right_mono)
  with d have "u * math_log_100 * u \<le> to_double (to_double q * math_log_100)"
    by linarith
  moreover have "u * math_log_100 * u = u * u * math_log_100" by simp
  ultimately have "4 \<le> to_double (to_double q * math_log_100)"
    using u(2) by linarith
  then show ?thesis
    using assms(1) by (simp add: subset_size_floor q_def le_floor_iff)
qed

lemma stochastic_loop_sample_error:
  "partitioned st \<Longrightarrow> counted st \<Longrightarrow> numSelected st < budget \<Longrightarrow> 0 < k
   \<Longrightarrow> int (N_trn st) - budget + 1 < k
   \<Longrightarrow> \<exists>st'. stochastic_loop c budget k st = (Some SampleError, st')"
proof (induction c budget k st rule: stochastic_loop.induct)
  case (1 c budget k st)
  note lt = \<open>numSelected st < budget\<close>
  show ?case
  proof (cases "int (length (remainSet st)) < k")
    case True
    then have "stochastic_step c k st = (Some SampleError, st)"
      by (rule stochastic_step_too_large)
    with lt show ?thesis by (simp add: stochastic_loop_fail)
  next
    case False
    then have le: "k \<le> int (length (remainSet st))" by simp
    from stochastic_step_props [OF "1.prems"(1,2,4) le, of c]
    obtain st1 where st1: "stochastic_step c k st = (None, st1)" "partitioned st1" "counted st1"
      "numSelected st1 = numSelected st + 1" "N_trn st1 = N_trn st"
      by blast
    have "int (length (greedySet st)) = numSelected st"
      using "1.prems"(2) by (simp add: counted_def)
    then have "numSelected st1 < budget"
      using partitioned_length [OF "1.prems"(1)] le "1.prems"(5) st1(4) by linarith
    then have "\<exists>st'. stochastic_loop c budget k st1 = (Some SampleError, st')"
      using lt st1 "1.prems"(4,5) by (intro "1.IH" [of None st1]) simp_all
    then show ?thesis
      by (simp add: stochastic_loop_iter [OF lt st1(1)])
  qed
qed

lemma select_stochastic_sample_error:
  assumes "selection_type c = ''Stochastic''" and "0 < budget"
    and "budget \<le> int (length (pool_gradients c params))"
    and "int (length (pool_gradients c params)) - budget + 1
           < subset_size_of (select_init c params st) budget"
  shows "failure_of (select c budget params st) = Some SampleError"
proof -
  let ?st0 = "select_init c params st"
  let ?k = "subset_size_of ?st0 budget"
  have "0 < ?k"
    using subset_size_ge_4 [of budget ?st0] assms(2,3) by (simp add: select_init_fields)
  with stochastic_loop_sample_error [OF select_init_partitioned select_init_counted, of c params st budget ?k c]
  obtain st' where "stochastic_loop c budget ?k ?st0 = (Some SampleError, st')"
    using assms(2,4) by (auto simp: select_init_N_trn select_init_fields)
  then show ?thesis
    using assms(1,2) by (simp add: select_def Let_def failure_of_def)
qed

lemma indices_of_Some [simp]: "indices_of (Some (Inr (idx, w), st)) = Some idx"
  by (simp add: indices_of_def)

lemma weights_of_Some [simp]: "weights_of (Some (Inr (idx, w), st)) = Some w"
  by (simp add: weights_of_def)

lemma subset_size_double:
  assumes "0 < budget" and "length (grads_per_elem st) = 2 * nat budget"
  shows "subset_size_of st budget = 9"
proof -
  have q: "real (length (grads_per_elem st)) / real_of_int budget = 2"
    using assms by simp
  have "subset_size_of st budget = \<lfloor>to_double (to_double 2 * math_log_100)\<rfloor>"
    unfolding subset_size_floor [OF assms(1)] q ..
  also have "\<dots> = \<lfloor>2 * math_log_100\<rfloor>"
    by (simp add: to_double_2 to_double_2_log_100)
  also have "\<dots> = 9" by (simp add: floor_eq_iff math_log_100_def)
  finally show ?thesis .
qed

lemma subset_size_equal:
  assumes "0 < budget" and "length (grads_per_elem st) = nat budget"
  shows "subset_size_of st budget = 4"
proof -
  have q: "real (length (grads_per_elem st)) / real_of_int budget = 1"
    using assms by simp
  have "subset_size_of st budget = \<lfloor>to_double (to_double 1 * math_log_100)\<rfloor>"
    unfolding subset_size_floor [OF assms(1)] q ..
  also have "\<dots> = \<lfloor>math_log_100\<rfloor>"
    by (simp add: to_double_1 to_double_log_100)
  also have "\<dots> = 4" by (simp add: floor_eq_iff math_log_100_def)
  finally show ?thesis .
qed

text \<open>
  The rounding is visible in the result: with a pool of 47069680 elements and a budget of
  633 the two roundings carry the product to 342439, and the truncation returns it, while
  the exact product \<open>(47069680 / 633) \<times> ln 100\<close> is below 342439.
\<close>

lemma subset_size_large_pool:
  assumes "length (grads_per_elem st) = 47069680"
  shows "subset_size_of st 633 = 342439"
proof -
  have q: "real (length (grads_per_elem st)) / real_of_int 633 = 47069680 / 633"
    using assms by simp
  have pos: "(0::int) < 633" by simp
  have "subset_size_of st 633 = \<lfloor>to_double (to_double (47069680 / 633) * math_log_100)\<rfloor>"
    unfolding subset_size_floor [OF pos] q ..
  then show ?thesis by (simp only: quotient_double product_double floor_numeral)
qed

lemma exact_product_large_pool: "\<lfloor>47069680 / 633 * ln (100 :: real)\<rfloor> = 342438"
proof -
  have "10369921366796843 / 2 ^ 51 * (47069680 / 633) < ln (100 :: real) * (47069680 / 633)"
    using ln_100_window(1) by (intro mult_strict_right_mono) simp_all
  moreover have "ln (100 :: real) * (47069680 / 633) < 10369921366796845 / 2 ^ 51 * (47069680 / 633)"
    using ln_100_window(2) by (intro mult_strict_right_mono) simp_all
  ultimately have "342438 \<le> ln (100 :: real) * (47069680 / 633)
      \<and> ln (100 :: real) * (47069680 / 633) < 342439"
    by simp
  then show ?thesis by (simp add: floor_eq_iff mult.commute)
qed

subsection \<open>What an iteration changes: Naive and Stochastic\<close>

lemma commit_one_frame:
  "greedySet (snd (commit_one c b st)) = greedySet st @ [b]"
  "remainSet (snd (commit_one c b st)) = remove1 b (remainSet st)"
  "N_trn (snd (commit_one c b st)) = N_trn st"
  by (auto simp: commit_one_def greedySet_append_def remainSet_remove_def Let_def iadd_def refresh_grads_val_def deref_def
        update_grads_val_def N_trn_def split: tensor_ref.splits)

lemma naive_step_cases:
  "(naive_step c st = (Some ArgmaxEmpty, st)) \<or>
   (\<exists>b \<in> set (remainSet st). naive_step c st = commit_one c b st)"
proof (cases "argmax (eval_taylor_modular st (rows (grads_per_elem st) (remainSet st)))")
  case (Inl e)
  then have "remainSet st = []"
    using argmax_nonempty [of "eval_taylor_modular st (rows (grads_per_elem st) (remainSet st))"]
    by (auto simp: eval_taylor_modular_def rows_def)
  then show ?thesis by (simp add: naive_step_empty)
next
  case (Inr j)
  then have "j < length (remainSet st)"
    using argmax_Inr_bound by fastforce
  then have "remainSet st ! j \<in> set (remainSet st)" by simp
  with Inr show ?thesis by (auto simp: naive_step_def Let_def)
qed

lemma stochastic_step_cases:
  "(\<exists>e. stochastic_step c k st = (Some e, st)) \<or>
   (\<exists>e g. stochastic_step c k st = (Some e, st\<lparr>rng := g\<rparr>)) \<or>
   (\<exists>g. \<exists>b \<in> set (remainSet st). stochastic_step c k st = commit_one c b (st\<lparr>rng := g\<rparr>))"
proof (cases "random_choice (rng st) (remainSet st) k")
  case (Inl e)
  then show ?thesis by (simp add: stochastic_step_def)
next
  case (Inr p)
  then obtain g where p: "p = (draw (rng st) (remainSet st) (nat k), g)"
    by (auto simp: random_choice_def split: if_splits)
  let ?sample = "draw (rng st) (remainSet st) (nat k)"
  let ?st0 = "st\<lparr>rng := g\<rparr>"
  show ?thesis
  proof (cases "argmax (eval_taylor_modular ?st0 (rows (grads_per_elem ?st0) ?sample))")
    case (Inl e)
    with Inr p show ?thesis by (auto simp: stochastic_step_def Let_def)
  next
    case inr: (Inr j)
    then have "j < length ?sample"
      using argmax_Inr_bound by fastforce
    then have "?sample ! j \<in> set ?sample" by simp
    then have "?sample ! j \<in> set (remainSet st)"
      using draw_subset [of "rng st" "remainSet st" "nat k"] by auto
    moreover have "stochastic_step c k st = commit_one c (?sample ! j) ?st0"
      using Inr p inr by (simp add: stochastic_step_def Let_def)
    ultimately show ?thesis by blast
  qed
qed

lemma commit_one_partitioned:
  assumes "partitioned st" and "b \<in> set (remainSet st)"
  shows "partitioned (snd (commit_one c b st))"
  using assms by (rule partitioned_move) (simp_all add: commit_one_frame)

lemma naive_step_partitioned:
  "partitioned st \<Longrightarrow> partitioned (snd (naive_step c st))"
  using naive_step_cases [of c st] by (auto simp: commit_one_partitioned)

lemma naive_step_prefix: "prefix (greedySet st) (greedySet (snd (naive_step c st)))"
  using naive_step_cases [of c st] by (auto simp: commit_one_frame)

lemma naive_step_N_trn: "N_trn (snd (naive_step c st)) = N_trn st"
  using naive_step_cases [of c st] by (auto simp: commit_one_frame)

lemma N_trn_rng [simp]: "N_trn (st\<lparr>rng := g\<rparr>) = N_trn st"
  by (simp add: N_trn_def)

lemma stochastic_step_partitioned:
  assumes "partitioned st"
  shows "partitioned (snd (stochastic_step c k st))"
proof -
  have "\<And>g b. b \<in> set (remainSet st) \<Longrightarrow> partitioned (snd (commit_one c b (st\<lparr>rng := g\<rparr>)))"
    using assms by (intro commit_one_partitioned) simp_all
  then show ?thesis
    using stochastic_step_cases [of c k st] assms by auto
qed

lemma stochastic_step_prefix: "prefix (greedySet st) (greedySet (snd (stochastic_step c k st)))"
  using stochastic_step_cases [of c k st] by (auto simp: commit_one_frame)

lemma stochastic_step_N_trn: "N_trn (snd (stochastic_step c k st)) = N_trn st"
  using stochastic_step_cases [of c k st] by (auto simp: commit_one_frame)

subsection \<open>What an iteration changes: RGreedy; the visited states\<close>

lemma foldl_remove1_set:
  "distinct xs \<Longrightarrow> set (foldl (\<lambda>xs x. remove1 x xs) xs sel) = set xs - set sel
     \<and> distinct (foldl (\<lambda>xs x. remove1 x xs) xs sel)"
proof (induction sel arbitrary: xs)
  case Nil
  then show ?case by simp
next
  case (Cons a sel)
  have d: "distinct (remove1 a xs)" using Cons.prems by simp
  have "set (remove1 a xs) = set xs - {a}" using Cons.prems by (rule set_remove1_eq)
  with Cons.IH [OF d] show ?case by auto
qed

lemma length_foldl_remove1:
  "distinct sel \<Longrightarrow> set sel \<subseteq> set xs
   \<Longrightarrow> length (foldl (\<lambda>xs x. remove1 x xs) xs sel) = length xs - length sel"
proof (induction sel arbitrary: xs)
  case Nil
  then show ?case by simp
next
  case (Cons a sel)
  have a: "a \<in> set xs" using Cons.prems by simp
  have "x \<in> set (remove1 a xs)" if "x \<in> set sel" for x
  proof -
    from that Cons.prems have "x \<noteq> a" and "x \<in> set xs" by auto
    then show ?thesis by (simp add: in_set_remove1)
  qed
  then have "set sel \<subseteq> set (remove1 a xs)" by blast
  moreover have "distinct sel" using Cons.prems by simp
  ultimately have "length (foldl (\<lambda>xs x. remove1 x xs) (remove1 a xs) sel)
      = length (remove1 a xs) - length sel"
    by (intro Cons.IH)
  with a show ?case by (simp add: length_remove1)
qed

lemma argsort_desc_set: "set (argsort_desc xs) = {0..<length xs}"
  by (simp add: argsort_desc_def)

lemma argsort_desc_distinct: "distinct (argsort_desc xs)"
  by (simp add: argsort_desc_def)

lemma argsort_desc_length: "length (argsort_desc xs) = length xs"
  by (simp add: argsort_desc_def)

lemma argsort_desc_sorted: "sorted (map (\<lambda>i. - (xs ! i)) (argsort_desc xs))"
  by (simp add: argsort_desc_def)

lemma py_slice_to_take: "\<exists>n. py_slice_to k xs = take n xs"
  by (auto simp: py_slice_to_def)

lemma py_slice_to_nonneg: "0 \<le> k \<Longrightarrow> py_slice_to k xs = take (nat k) xs"
  by (simp add: py_slice_to_def)

lemma rgreedy_pick_props:
  assumes "distinct (remainSet st)"
  shows "distinct (rgreedy_pick st s)" and "set (rgreedy_pick st s) \<subseteq> set (remainSet st)"
proof -
  let ?gains = "eval_taylor_modular st (rows (grads_per_elem st) (remainSet st))"
  obtain n where n: "py_slice_to s (argsort_desc ?gains) = take n (argsort_desc ?gains)"
    using py_slice_to_take by blast
  have sub: "set (take n (argsort_desc ?gains)) \<subseteq> {0..<length (remainSet st)}"
    using set_take_subset [of n "argsort_desc ?gains"] by (simp add: argsort_desc_set)
  have "inj_on (nth (remainSet st)) (set (take n (argsort_desc ?gains)))"
    using assms sub by (intro inj_on_nth) auto
  moreover have "distinct (take n (argsort_desc ?gains))"
    by (simp add: argsort_desc_distinct)
  ultimately show "distinct (rgreedy_pick st s)"
    by (simp add: rgreedy_pick_def n distinct_map)
  show "set (rgreedy_pick st s) \<subseteq> set (remainSet st)"
    using sub by (auto simp: rgreedy_pick_def n)
qed

lemma rgreedy_pick_length:
  "0 \<le> s \<Longrightarrow> length (rgreedy_pick st s) = min (nat s) (length (remainSet st))"
  by (simp add: rgreedy_pick_def py_slice_to_nonneg argsort_desc_length)

lemma rgreedy_step_frame:
  "greedySet (snd (rgreedy_step c s st)) = greedySet st @ rgreedy_pick st s"
  "remainSet (snd (rgreedy_step c s st))
     = foldl (\<lambda>xs idx. remove1 idx xs) (remainSet st) (rgreedy_pick st s)"
  "N_trn (snd (rgreedy_step c s st)) = N_trn st"
  by (auto simp: rgreedy_step_def greedySet_extend_def remainSet_remove_all_def rgreedy_pick_def Let_def iadd_def refresh_grads_val_def deref_def
        update_grads_val_def N_trn_def split: tensor_ref.splits)

lemma rgreedy_step_partitioned:
  assumes "partitioned st"
  shows "partitioned (snd (rgreedy_step c s st))"
proof -
  from assms have d: "distinct (greedySet st)" "distinct (remainSet st)"
    "set (greedySet st) \<inter> set (remainSet st) = {}"
    and u: "set (greedySet st) \<union> set (remainSet st) = {0..<N_trn st}"
    by (simp_all add: partitioned_def)
  note p = rgreedy_pick_props [OF d(2), of s]
  note f = foldl_remove1_set [OF d(2), of "rgreedy_pick st s"]
  show ?thesis
    using d u p f by (auto simp: partitioned_def rgreedy_step_frame)
qed

lemma rgreedy_step_prefix: "prefix (greedySet st) (greedySet (snd (rgreedy_step c s st)))"
  by (simp add: rgreedy_step_frame)

lemma iteration_partitioned:
  "iteration c budget st0 st st' \<Longrightarrow> partitioned st \<Longrightarrow> partitioned st'"
  by (auto simp: iteration_def naive_step_partitioned stochastic_step_partitioned
        rgreedy_step_partitioned split: if_splits)

lemma iteration_prefix:
  "iteration c budget st0 st st' \<Longrightarrow> prefix (greedySet st) (greedySet st')"
  by (auto simp: iteration_def naive_step_prefix stochastic_step_prefix
        rgreedy_step_prefix split: if_splits)

lemma iteration_N_trn:
  "iteration c budget st0 st st' \<Longrightarrow> N_trn st' = N_trn st"
  by (auto simp: iteration_def naive_step_N_trn stochastic_step_N_trn
        rgreedy_step_frame split: if_splits)

lemma visits_invariant:
  assumes "visits c budget st0 st" and "partitioned st0"
  shows "partitioned st \<and> N_trn st = N_trn st0 \<and> prefix (greedySet st0) (greedySet st)"
  using assms unfolding visits_def
proof (induction rule: rtranclp_induct)
  case base
  then show ?case by simp
next
  case (step y z)
  then show ?case
    using iteration_partitioned [of c budget st0 y z] iteration_N_trn [of c budget st0 y z]
      iteration_prefix [of c budget st0 y z]
    by (auto intro: prefix_order.trans)
qed

lemma visits_refl: "visits c budget st0 st0"
  by (simp add: visits_def)

lemma visits_step:
  "visits c budget st0 st \<Longrightarrow> iteration c budget st0 st st' \<Longrightarrow> visits c budget st0 st'"
  by (simp add: visits_def)

subsection \<open>The state a call ends in is a visited state\<close>

lemma naive_loop_visits:
  "visits c budget st0 st \<Longrightarrow> selection_type c = ''Naive''
   \<Longrightarrow> visits c budget st0 (snd (naive_loop c budget st))"
proof (induction c budget st rule: naive_loop.induct)
  case (1 c budget st)
  show ?case
  proof (cases "numSelected st < budget")
    case False
    with 1 show ?thesis by (simp add: naive_loop_done)
  next
    case True
    obtain x st' where step: "naive_step c st = (x, st')" by (cases "naive_step c st")
    have "iteration c budget st0 st st'"
      using True step "1.prems"(2) by (simp add: iteration_def)
    with "1.prems"(1) have v: "visits c budget st0 st'" by (rule visits_step)
    show ?thesis
    proof (cases x)
      case None
      with "1.IH" [of x st'] True step v "1.prems"(2)
      show ?thesis by (simp add: naive_loop_iter)
    next
      case (Some e)
      with True step v show ?thesis by (simp add: naive_loop_fail)
    qed
  qed
qed

lemma stochastic_loop_visits:
  "visits c budget st0 st \<Longrightarrow> selection_type c = ''Stochastic'' \<Longrightarrow> budget \<noteq> 0
   \<Longrightarrow> k = subset_size_of st0 budget
   \<Longrightarrow> visits c budget st0 (snd (stochastic_loop c budget k st))"
proof (induction c budget k st rule: stochastic_loop.induct)
  case (1 c budget k st)
  show ?case
  proof (cases "numSelected st < budget")
    case False
    with 1 show ?thesis by (simp add: stochastic_loop_done)
  next
    case True
    obtain x st' where step: "stochastic_step c k st = (x, st')" by (cases "stochastic_step c k st")
    have "iteration c budget st0 st st'"
      using True step "1.prems"(2,3,4) by (simp add: iteration_def)
    with "1.prems"(1) have v: "visits c budget st0 st'" by (rule visits_step)
    show ?thesis
    proof (cases x)
      case None
      with "1.IH" [of x st'] True step v "1.prems"(2,3,4)
      show ?thesis by (simp add: stochastic_loop_iter)
    next
      case (Some e)
      with True step v show ?thesis by (simp add: stochastic_loop_fail)
    qed
  qed
qed

lemma rgreedy_loop_visits_aux:
  assumes "rgreedy_loop c' budget' s st = Some y"
  shows "c' = c \<and> budget' = budget \<and> s = selection_size_of c budget \<and> r c \<noteq> 0
         \<and> selection_type c = ''RGreedy'' \<and> visits c budget st0 st
         \<longrightarrow> visits c budget st0 (snd y)"
proof (rule rgreedy_loop.raw_induct
    [where P = "\<lambda>c' budget' s st y. c' = c \<and> budget' = budget \<and> s = selection_size_of c budget
        \<and> r c \<noteq> 0 \<and> selection_type c = ''RGreedy'' \<and> visits c budget st0 st
        \<longrightarrow> visits c budget st0 (snd y)", OF _ assms])
  fix loop :: "'a selector \<Rightarrow> int \<Rightarrow> int \<Rightarrow> 'a state \<Rightarrow> 'a run option"
  fix c' budget' s st y
  assume IH: "\<And>c' budget' s st y. loop c' budget' s st = Some y
                \<Longrightarrow> c' = c \<and> budget' = budget \<and> s = selection_size_of c budget \<and> r c \<noteq> 0
                    \<and> selection_type c = ''RGreedy'' \<and> visits c budget st0 st
                    \<longrightarrow> visits c budget st0 (snd y)"
    and body: "(if numSelected st < budget'
                then case rgreedy_step c' s st of
                       (None, st') \<Rightarrow> loop c' budget' s st'
                     | (Some e, st') \<Rightarrow> Some (Some e, st')
                else Some (None, st)) = Some y"
  show "c' = c \<and> budget' = budget \<and> s = selection_size_of c budget \<and> r c \<noteq> 0
        \<and> selection_type c = ''RGreedy'' \<and> visits c budget st0 st
        \<longrightarrow> visits c budget st0 (snd y)"
  proof
    assume a: "c' = c \<and> budget' = budget \<and> s = selection_size_of c budget \<and> r c \<noteq> 0
        \<and> selection_type c = ''RGreedy'' \<and> visits c budget st0 st"
    show "visits c budget st0 (snd y)"
    proof (cases "numSelected st < budget")
      case False
      with body a show ?thesis by auto
    next
      case True
      obtain x st' where step: "rgreedy_step c s st = (x, st')" by (cases "rgreedy_step c s st")
      have "iteration c budget st0 st st'"
        using True step a by (simp add: iteration_def)
      with a have v: "visits c budget st0 st'" by (auto intro: visits_step)
      show ?thesis
      proof (cases x)
        case None
        with body True step a have "loop c budget s st' = Some y" by simp
        from IH [OF this] a v show ?thesis by simp
      next
        case (Some e)
        with body True step a v show ?thesis by auto
      qed
    qed
  qed
qed

lemma select_visits:
  assumes "select c budget params st = Some (res, st')"
  shows "visits c budget (select_init c params st) st'"
proof -
  let ?st0 = "select_init c params st"
  consider (rg) "selection_type c = ''RGreedy''" | (sto) "selection_type c = ''Stochastic''"
    | (nai) "selection_type c = ''Naive''"
    | (other) "selection_type c \<noteq> ''RGreedy''" "selection_type c \<noteq> ''Stochastic''"
        "selection_type c \<noteq> ''Naive''"
    by blast
  then show ?thesis
  proof cases
    case rg
    show ?thesis
    proof (cases "r c = 0")
      case True
      with rg assms show ?thesis by (auto simp: select_def Let_def visits_refl)
    next
      case False
      with rg assms obtain y where y: "rgreedy_loop c budget (selection_size_of c budget) ?st0 = Some y"
        and "snd y = st'"
        by (auto simp: select_def Let_def finish_def split: option.splits prod.splits if_splits)
      with rgreedy_loop_visits_aux [OF y, of c budget ?st0] rg False
      show ?thesis by (simp add: visits_refl)
    qed
  next
    case sto
    show ?thesis
    proof (cases "budget = 0")
      case True
      with sto assms show ?thesis by (auto simp: select_def Let_def visits_refl)
    next
      case False
      have "visits c budget ?st0 (snd (stochastic_loop c budget (subset_size_of ?st0 budget) ?st0))"
        using sto False by (intro stochastic_loop_visits visits_refl) simp_all
      moreover have "snd (stochastic_loop c budget (subset_size_of ?st0 budget) ?st0) = st'"
        using sto False assms
        by (auto simp: select_def Let_def finish_def split: option.splits prod.splits if_splits)
      ultimately show ?thesis by simp
    qed
  next
    case nai
    have "visits c budget ?st0 (snd (naive_loop c budget ?st0))"
      using nai by (intro naive_loop_visits visits_refl)
    moreover have "snd (naive_loop c budget ?st0) = st'"
      using nai assms
      by (auto simp: select_def Let_def finish_def split: option.splits prod.splits if_splits)
    ultimately show ?thesis by simp
  next
    case other
    with assms show ?thesis
      by (auto simp: select_def Let_def finish_def visits_refl split: if_splits)
  qed
qed


subsection \<open>The Naive loop ignores the generator and the record of calls\<close>

lemma commit_one_reseed:
  "commit_one c b (reseed g l st) = apsnd (reseed g l) (commit_one c b st)"
  by (auto simp: commit_one_def greedySet_append_def remainSet_remove_def reseed_def Let_def iadd_def refresh_grads_val_def deref_def
        update_grads_val_def out_vec_def split: tensor_ref.splits)

lemma naive_step_reseed:
  "naive_step c (reseed g l st) = apsnd (reseed g l) (naive_step c st)"
proof -
  have "eval_taylor_modular (reseed g l st) = eval_taylor_modular st"
    by (simp add: eval_taylor_modular_def reseed_def fun_eq_iff)
  moreover have "grads_per_elem (reseed g l st) = grads_per_elem st"
    "remainSet (reseed g l st) = remainSet st"
    by (simp_all add: reseed_def)
  ultimately show ?thesis
    by (simp add: naive_step_def Let_def commit_one_reseed split: sum.splits)
qed

lemma naive_loop_reseed:
  "naive_loop c budget (reseed g l st) = apsnd (reseed g l) (naive_loop c budget st)"
proof (induction c budget st rule: naive_loop.induct)
  case (1 c budget st)
  have n: "numSelected (reseed g l st) = numSelected st" by (simp add: reseed_def)
  show ?case
  proof (cases "numSelected st < budget")
    case False
    then show ?thesis by (simp add: naive_loop_done n)
  next
    case True
    obtain x st' where step: "naive_step c st = (x, st')" by (cases "naive_step c st")
    then have step': "naive_step c (reseed g l st) = (x, reseed g l st')"
      by (simp add: naive_step_reseed)
    show ?thesis
    proof (cases x)
      case None
      with "1.IH" [of x st'] True step step' n show ?thesis
        by (simp add: naive_loop_iter)
    next
      case (Some e)
      with True step step' n show ?thesis by (simp add: naive_loop_fail)
    qed
  qed
qed

lemma select_init_reseed:
  "select_init c params st'
     = reseed (rng st') (calls st' @ [UpdateModel, ComputeGradients, ValidationForward])
         (select_init c params st)"
  by (cases st, cases st')
     (simp add: select_init_def update_grads_val_first_init_def compute_gradients_def
        update_model_def N_trn_def reseed_def Let_def split: prod.splits)

lemma finish_reseed: "fst (finish budget (reseed g l st)) = fst (finish budget st)"
  by (simp add: finish_def reseed_def)

lemma select_naive_eq:
  assumes "selection_type c = ''Naive''"
  shows "map_option fst (select c budget params st) = map_option fst (select c budget params st')"
proof -
  let ?g = "rng st'" and ?l = "calls st' @ [UpdateModel, ComputeGradients, ValidationForward]"
  obtain x s1 where l: "naive_loop c budget (select_init c params st) = (x, s1)"
    by (cases "naive_loop c budget (select_init c params st)")
  then have l': "naive_loop c budget (select_init c params st') = (x, reseed ?g ?l s1)"
    by (simp add: select_init_reseed [of c params st' st] naive_loop_reseed)
  show ?thesis
    using assms l l' by (cases x) (simp_all add: select_def Let_def finish_reseed)
qed

subsection \<open>One Stochastic iteration\<close>

lemma gains_scores:
  "eval_taylor_modular st (rows (grads_per_elem st) idxs) = map (score st) idxs"
  by (simp add: eval_taylor_modular_def rows_def score_def)

lemma score_rng [simp]: "score (st\<lparr>rng := g\<rparr>) = score st"
  by (simp add: score_def fun_eq_iff)

lemma stochastic_step_commit:
  assumes "stochastic_step c k st = (None, st')"
  shows "0 \<le> k \<and> k \<le> int (length (remainSet st))
       \<and> (\<exists>b \<in> set (draw (rng st) (remainSet st) (nat k)).
             greedySet st' = greedySet st @ [b] \<and> remainSet st' = remove1 b (remainSet st)
             \<and> (\<forall>i \<in> set (draw (rng st) (remainSet st) (nat k)). score st i \<le> score st b))"
proof -
  let ?sample = "draw (rng st) (remainSet st) (nat k)"
  let ?g = "\<lambda>n. rng st (n + nat k)"
  let ?st0 = "st\<lparr>rng := ?g\<rparr>"
  from assms have k: "0 \<le> k" "k \<le> int (length (remainSet st))"
    by (auto simp: stochastic_step_def random_choice_def split: if_splits)
  then have rc: "random_choice (rng st) (remainSet st) k = Inr (?sample, ?g)"
    by (simp add: random_choice_ok)
  from assms rc obtain j where j: "argmax (map (score st) ?sample) = Inr j"
    and c: "commit_one c (?sample ! j) ?st0 = (None, st')"
    by (auto simp: stochastic_step_def Let_def gains_scores split: sum.splits)
  from argmax_Inr_bound [OF j] have jl: "j < length ?sample" by simp
  then have mem: "?sample ! j \<in> set ?sample" by simp
  have "\<forall>y \<in> set (map (score st) ?sample). y \<le> map (score st) ?sample ! j"
    using j by (rule argmax_is_max)
  then have mx: "\<forall>i \<in> set ?sample. score st i \<le> score st (?sample ! j)"
    using jl by simp
  have fr: "greedySet st' = greedySet st @ [?sample ! j]
      \<and> remainSet st' = remove1 (?sample ! j) (remainSet st)"
    using commit_one_frame(1,2) [of c "?sample ! j" ?st0] c by simp
  have "\<exists>b \<in> set ?sample.
          greedySet st' = greedySet st @ [b] \<and> remainSet st' = remove1 b (remainSet st)
          \<and> (\<forall>i \<in> set ?sample. score st i \<le> score st b)"
    using mem fr mx by (intro bexI [of _ "?sample ! j"]) simp_all
  with k show ?thesis by (intro conjI)
qed

lemma commit_one_counted: "counted st \<Longrightarrow> counted (snd (commit_one c b st))"
  using commit_one_props [of st c b] by (auto simp: counted_def)

lemma stochastic_step_counted: "counted st \<Longrightarrow> counted (snd (stochastic_step c k st))"
  using stochastic_step_cases [of c k st] by (auto simp: commit_one_counted)

lemma stochastic_visits_counted:
  assumes "visits c budget st0 st" and "selection_type c = ''Stochastic''" and "counted st0"
  shows "counted st"
  using assms(1,3) unfolding visits_def
proof (induction rule: rtranclp_induct)
  case base
  then show ?case by simp
next
  case (step y z)
  then show ?case using assms(2) by (auto simp: iteration_def stochastic_step_counted)
qed

subsection \<open>Inside a Naive iteration\<close>

text \<open>
  A Naive iteration that finds a winner passes through the state in which the winner
  has been appended to the selected set and is still in the remaining set.
\<close>

lemma naive_step_after_append:
  assumes "naive_after_append st = Some m"
  shows "\<exists>b \<in> set (remainSet st).
           m = greedySet_append b st \<and> naive_step c st = commit_one c b st
           \<and> b \<in> set (greedySet m) \<inter> set (remainSet m)"
proof -
  let ?gains = "eval_taylor_modular st (rows (grads_per_elem st) (remainSet st))"
  from assms obtain j where j: "argmax ?gains = Inr j"
    and m: "m = greedySet_append (remainSet st ! j) st"
    by (auto simp: naive_after_append_def Let_def split: sum.splits)
  from argmax_Inr_bound [OF j] have "j < length (remainSet st)"
    by (simp add: eval_taylor_modular_def rows_def)
  then have mem: "remainSet st ! j \<in> set (remainSet st)" by simp
  have "naive_step c st = commit_one c (remainSet st ! j) st"
    using j by (simp add: naive_step_def Let_def)
  moreover have "remainSet st ! j \<in> set (greedySet m) \<inter> set (remainSet m)"
    using mem m by (simp add: greedySet_append_def)
  ultimately show ?thesis using mem m by blast
qed

subsection \<open>Calls to the collaborators; budgets outside the valid range\<close>

lemma commit_one_calls: "calls (snd (commit_one c b st)) = calls st"
  by (auto simp: commit_one_def greedySet_append_def remainSet_remove_def Let_def iadd_def refresh_grads_val_def deref_def
        update_grads_val_def split: tensor_ref.splits)

lemma naive_step_calls: "calls (snd (naive_step c st)) = calls st"
  using naive_step_cases [of c st] by (auto simp: commit_one_calls)

lemma stochastic_step_calls: "calls (snd (stochastic_step c k st)) = calls st"
  using stochastic_step_cases [of c k st] by (auto simp: commit_one_calls)

lemma rgreedy_step_calls: "calls (snd (rgreedy_step c s st)) = calls st"
  by (auto simp: rgreedy_step_def greedySet_extend_def remainSet_remove_all_def Let_def iadd_def refresh_grads_val_def deref_def
        update_grads_val_def split: tensor_ref.splits)

lemma iteration_calls: "iteration c budget st0 st st' \<Longrightarrow> calls st' = calls st"
  by (auto simp: iteration_def naive_step_calls stochastic_step_calls rgreedy_step_calls
        split: if_splits)

lemma visits_calls:
  assumes "visits c budget st0 st"
  shows "calls st = calls st0"
  using assms unfolding visits_def
  by (induction rule: rtranclp_induct) (simp_all add: iteration_calls)

lemma select_calls:
  assumes "select c budget params st = Some (res, st')"
  shows "calls st' = calls st @ [UpdateModel, ComputeGradients, ValidationForward]"
  using visits_calls [OF select_visits [OF assms]] by (simp add: select_init_fields)

lemma naive_loop_exhausts:
  "partitioned st \<Longrightarrow> counted st \<Longrightarrow> int (N_trn st) < budget
   \<Longrightarrow> \<exists>st'. naive_loop c budget st = (Some ArgmaxEmpty, st')
           \<and> numSelected st' = int (N_trn st) \<and> remainSet st' = []"
proof (induction c budget st rule: naive_loop.induct)
  case (1 c budget st)
  have le: "int (length (greedySet st)) + int (length (remainSet st)) = int (N_trn st)"
    using partitioned_length [OF "1.prems"(1)] by simp
  have ns: "numSelected st = int (length (greedySet st))"
    using "1.prems"(2) by (simp add: counted_def)
  with le "1.prems"(3) have lt: "numSelected st < budget" by simp
  show ?case
  proof (cases "remainSet st = []")
    case True
    then have "naive_step c st = (Some ArgmaxEmpty, st)" by (rule naive_step_empty)
    with lt have "naive_loop c budget st = (Some ArgmaxEmpty, st)" by (simp add: naive_loop_fail)
    with True le ns show ?thesis by simp
  next
    case False
    from naive_step_props [OF "1.prems"(1,2) False, of c]
    obtain st1 where st1: "naive_step c st = (None, st1)" "partitioned st1" "counted st1"
      "N_trn st1 = N_trn st"
      by blast
    have "\<exists>st'. naive_loop c budget st1 = (Some ArgmaxEmpty, st')
           \<and> numSelected st' = int (N_trn st1) \<and> remainSet st' = []"
      using lt st1 "1.prems"(3) by (intro "1.IH" [of None st1]) simp_all
    with st1 show ?thesis
      by (simp add: naive_loop_iter [OF lt st1(1)])
  qed
qed

lemma select_naive_exhausts:
  assumes "selection_type c = ''Naive''" and "int (length (pool_gradients c params)) < budget"
  shows "\<exists>st'. select c budget params st = Some (Inl ArgmaxEmpty, st')
           \<and> numSelected st' = int (length (pool_gradients c params)) \<and> remainSet st' = []"
proof -
  from naive_loop_exhausts [OF select_init_partitioned select_init_counted, of c params st budget c]
  obtain st' where "naive_loop c budget (select_init c params st) = (Some ArgmaxEmpty, st')"
    "numSelected st' = int (length (pool_gradients c params))" "remainSet st' = []"
    using assms(2) by (auto simp: select_init_N_trn)
  with assms(1) show ?thesis by (simp add: select_def Let_def)
qed

lemma select_unrecognized:
  assumes "selection_type c \<noteq> ''RGreedy''" and "selection_type c \<noteq> ''Stochastic''"
    and "selection_type c \<noteq> ''Naive''" and "0 \<le> budget"
  shows "select c budget params st
           = Some (Inr ([], replicate (nat budget) 1), select_init c params st)"
  using assms by (simp add: select_def Let_def finish_def select_init_fields)

lemma select_negative_budget:
  assumes "budget < 0" and "selection_type c = ''RGreedy'' \<longrightarrow> r c \<noteq> 0"
  shows "select c budget params st = Some (Inl NegativeDimension, select_init c params st)"
  using assms
  by (simp add: select_def Let_def finish_def select_init_fields naive_loop_done
        stochastic_loop_done rgreedy_loop_done)

lemma failure_no_indices: "failure_of out = Some e \<Longrightarrow> indices_of out = None"
  by (auto simp: failure_of_def indices_of_def split: option.splits prod.splits sum.splits)

subsection \<open>A Naive run on a pool of two elements\<close>

lemmas eval_defs =
  select_def select_init_def update_model_def compute_gradients_def
  update_grads_val_first_init_def update_grads_val_def out_vec_def val_grads_def N_trn_def
  naive_step_def commit_one_def greedySet_append_def remainSet_remove_def refresh_grads_val_def deref_def iadd_def
  eval_taylor_modular_def rows_def dot_def vec_add_def vec_sub_def scale_def softmax_def
  one_hot_def mean_dim0_def width_def argmax_def finish_def
  example_selector_def fresh_state_def two_rows_def Let_def

lemma naive_two_rows_run:
  "\<exists>v. select (example_selector two_rows ''Naive'' 15) 2 () fresh_state
     = Some (Inr ([1, 0], [1, 1]),
         \<lparr>model_params = (), grads_per_elem = [[1, 0], [1, 1]], grads_val_curr = v,
          init_out = [[0, 0]], init_l1 = [[]], y_val = [0], numSelected = 2, rng = (\<lambda>n. 0),
          calls = [UpdateModel, ComputeGradients, ValidationForward],
          greedySet = [1, 0], remainSet = [], grads_currX = RowView 1\<rparr>)"
  by (simp add: eval_defs naive_loop.simps numeral_2_eq_2)

subsection \<open>The RGreedy loop with a positive chunk\<close>

lemma rgreedy_step_ok:
  assumes "0 < numSelected st \<longrightarrow> grads_currX st \<noteq> Unbound"
  shows "\<exists>st'. rgreedy_step c s st = (None, st') \<and> numSelected st' = numSelected st + s
           \<and> grads_currX st' \<noteq> Unbound"
proof (cases "0 < numSelected st")
  case False
  then show ?thesis
    by (simp add: rgreedy_step_def greedySet_extend_def remainSet_remove_all_def Let_def refresh_grads_val_def deref_def update_grads_val_def)
next
  case True
  with assms have b: "grads_currX st \<noteq> Unbound" by simp
  show ?thesis
  proof (cases "grads_currX st")
    case Unbound
    with b show ?thesis by simp
  next
    case (RowView i)
    with True show ?thesis
      by (simp add: rgreedy_step_def greedySet_extend_def remainSet_remove_all_def Let_def iadd_def refresh_grads_val_def deref_def
            update_grads_val_def)
  next
    case (Fresh v)
    with True show ?thesis
      by (simp add: rgreedy_step_def greedySet_extend_def remainSet_remove_all_def Let_def iadd_def refresh_grads_val_def deref_def
            update_grads_val_def)
  qed
qed

lemma rgreedy_step_inv:
  assumes "rg_inv s st" and "0 < s"
  shows "\<exists>st'. rgreedy_step c s st = (None, st') \<and> rg_inv s st'
           \<and> numSelected st' = numSelected st + s \<and> N_trn st' = N_trn st"
proof -
  from assms(1) have p: "partitioned st" and n0: "0 \<le> numSelected st"
    and dv: "s dvd numSelected st"
    and b: "0 < numSelected st \<longrightarrow> grads_currX st \<noteq> Unbound"
    and l: "length (greedySet st) = min (N_trn st) (nat (numSelected st))"
    by (simp_all add: rg_inv_def)
  from rgreedy_step_ok [OF b, of c s]
  obtain st' where st': "rgreedy_step c s st = (None, st')" "numSelected st' = numSelected st + s"
    "grads_currX st' \<noteq> Unbound"
    by blast
  have g: "greedySet st' = greedySet st @ rgreedy_pick st s" and n: "N_trn st' = N_trn st"
    using rgreedy_step_frame(1,3) [of c s st] st'(1) by simp_all
  have p': "partitioned st'"
    using rgreedy_step_partitioned [OF p, of c s] st'(1) by simp
  have "length (rgreedy_pick st s) = min (nat s) (length (remainSet st))"
    using assms(2) by (simp add: rgreedy_pick_length)
  moreover have "length (remainSet st) = N_trn st - length (greedySet st)"
    using partitioned_length [OF p] by simp
  ultimately have "length (greedySet st')
      = min (N_trn st) (nat (numSelected st))
        + min (nat s) (N_trn st - min (N_trn st) (nat (numSelected st)))"
    using g l by simp
  also have "\<dots> = min (N_trn st) (nat (numSelected st) + nat s)"
    by arith
  also have "nat (numSelected st) + nat s = nat (numSelected st')"
    using st'(2) n0 assms(2) by (simp add: nat_add_distrib)
  finally have l': "length (greedySet st') = min (N_trn st') (nat (numSelected st'))"
    using n by simp
  have "0 \<le> numSelected st'" using st'(2) n0 assms(2) by simp
  moreover have "s dvd numSelected st'" using st'(2) dv by simp
  ultimately have "rg_inv s st'"
    using p' st'(3) l' by (simp add: rg_inv_def)
  with st' n show ?thesis by blast
qed

lemma rgreedy_loop_terminates:
  assumes "0 < s"
  shows "rg_inv s st \<Longrightarrow>
    \<exists>st'. rgreedy_loop c budget s st = Some (None, st') \<and> rg_inv s st' \<and> N_trn st' = N_trn st
         \<and> budget \<le> numSelected st'
         \<and> (numSelected st < budget \<longrightarrow> numSelected st' < budget + s)"
proof (induction "nat (budget - numSelected st)" arbitrary: st rule: less_induct)
  case less
  show ?case
  proof (cases "numSelected st < budget")
    case False
    with less.prems show ?thesis by (simp add: rgreedy_loop_done)
  next
    case True
    from rgreedy_step_inv [OF less.prems assms, of c]
    obtain st1 where st1: "rgreedy_step c s st = (None, st1)" "rg_inv s st1"
      "numSelected st1 = numSelected st + s" "N_trn st1 = N_trn st"
      by blast
    have "nat (budget - numSelected st1) < nat (budget - numSelected st)"
      using True st1(3) assms by simp
    from less.hyps [OF this st1(2)]
    obtain st' where st': "rgreedy_loop c budget s st1 = Some (None, st')" "rg_inv s st'"
      "N_trn st' = N_trn st1" "budget \<le> numSelected st'"
      "numSelected st1 < budget \<longrightarrow> numSelected st' < budget + s"
      by blast
    have "numSelected st' < budget + s"
    proof (cases "numSelected st1 < budget")
      case True
      with st'(5) show ?thesis by simp
    next
      case False
      then have "rgreedy_loop c budget s st1 = Some (None, st1)" by (rule rgreedy_loop_done)
      with st'(1) have "st' = st1" by simp
      with st1(3) True show ?thesis by simp
    qed
    with st' st1 True show ?thesis
      by (simp add: rgreedy_loop_iter [OF True st1(1)])
  qed
qed

lemma multiple_in_window:
  fixes s b n :: int
  assumes "0 < s" and "s dvd n" and "b \<le> n" and "n < b + s"
  shows "n = (if b mod s = 0 then b else b + (s - b mod s))"
proof -
  have m: "0 \<le> b mod s" "b mod s < s" using assms(1) by simp_all
  from assms(2) obtain k where k: "n = s * k" by (auto simp: dvd_def)
  have "(s * k + (- b)) mod s = (- b) mod s" by (rule mod_mult_self4)
  then have "(n - b) mod s = (- b) mod s" by (simp add: k)
  moreover have "(n - b) mod s = n - b"
    using assms(3,4) by (simp add: mod_pos_pos_trivial)
  ultimately have nb: "n - b = (- b) mod s" by simp
  show ?thesis
  proof (cases "b mod s = 0")
    case True
    then have "(- b) mod s = 0" by (simp add: zmod_zminus1_eq_if)
    with nb True show ?thesis by simp
  next
    case False
    then have "(- b) mod s = s - b mod s"
      using assms(1) by (simp add: zmod_zminus1_eq_if)
    with nb False show ?thesis by simp
  qed
qed

lemma selection_size_div:
  assumes "0 \<le> budget" and "0 < r c"
  shows "selection_size_of c budget = budget div r c"
proof -
  have "0 \<le> real_of_int budget / real_of_int (r c)" using assms by simp
  then show ?thesis
    by (simp add: selection_size_of_def py_int_def floor_divide_of_int_eq)
qed

lemma select_rgreedy_length:
  assumes "selection_type c = ''RGreedy''" and "0 < budget" and "0 < r c" and "r c \<le> budget"
  shows "\<exists>idx st'. select c budget params st = Some (Inr (idx, replicate (nat budget) 1), st')
           \<and> length idx
               = min (length (pool_gradients c params))
                   (nat (if budget mod (budget div r c) = 0 then budget
                         else budget + (budget div r c - budget mod (budget div r c))))"
proof -
  let ?s = "budget div r c"
  let ?st0 = "select_init c params st"
  have s: "0 < ?s" using assms(3,4) by (simp add: pos_imp_zdiv_pos_iff)
  have ss: "selection_size_of c budget = ?s"
    using assms(2,3) by (simp add: selection_size_div)
  have "rg_inv ?s ?st0"
    by (simp add: rg_inv_def select_init_partitioned select_init_fields)
  from rgreedy_loop_terminates [OF s this, of c budget]
  obtain st' where st': "rgreedy_loop c budget ?s ?st0 = Some (None, st')" "rg_inv ?s st'"
    "N_trn st' = N_trn ?st0" "budget \<le> numSelected st'" "numSelected st' < budget + ?s"
    using assms(2) by (auto simp: select_init_fields)
  from st'(2) have dv: "?s dvd numSelected st'"
    and l: "length (greedySet st') = min (N_trn st') (nat (numSelected st'))"
    by (simp_all add: rg_inv_def)
  have "numSelected st' = (if budget mod ?s = 0 then budget else budget + (?s - budget mod ?s))"
    using s dv st'(4,5) by (rule multiple_in_window)
  with l st'(3) have "length (greedySet st')
      = min (length (pool_gradients c params))
          (nat (if budget mod ?s = 0 then budget else budget + (?s - budget mod ?s)))"
    by (simp add: select_init_N_trn)
  moreover have "select c budget params st
      = Some (Inr (greedySet st', replicate (nat budget) 1), st')"
    using assms st'(1) ss by (simp add: select_def Let_def finish_def)
  ultimately show ?thesis by blast
qed

lemma rgreedy_pick_sorted:
  "sorted_wrt (\<lambda>i j. score st j \<le> score st i) (rgreedy_pick st s)"
proof -
  let ?gains = "eval_taylor_modular st (rows (grads_per_elem st) (remainSet st))"
  obtain n where n: "py_slice_to s (argsort_desc ?gains) = take n (argsort_desc ?gains)"
    using py_slice_to_take by blast
  have gs: "?gains ! i = score st (remainSet st ! i)" if "i < length (remainSet st)" for i
    using that by (simp add: gains_scores)
  have "sorted (map (\<lambda>i. - (?gains ! i)) (take n (argsort_desc ?gains)))"
    using argsort_desc_sorted [of ?gains] by (simp add: take_map [symmetric] sorted_wrt_take)
  then have "sorted_wrt (\<lambda>i j. - (?gains ! i) \<le> - (?gains ! j)) (take n (argsort_desc ?gains))"
    by (simp add: sorted_map)
  moreover have "score st (remainSet st ! j) \<le> score st (remainSet st ! i)"
    if "i \<in> set (take n (argsort_desc ?gains))" "j \<in> set (take n (argsort_desc ?gains))"
      "- (?gains ! i) \<le> - (?gains ! j)" for i j
  proof -
    from that(1,2) have "i \<in> set (argsort_desc ?gains)" "j \<in> set (argsort_desc ?gains)"
      by (auto dest: in_set_takeD)
    then have "i < length (remainSet st)" "j < length (remainSet st)"
      by (simp_all add: argsort_desc_set)
    with that(3) show ?thesis by (simp add: gs)
  qed
  ultimately have "sorted_wrt (\<lambda>i j. score st (remainSet st ! j) \<le> score st (remainSet st ! i))
      (take n (argsort_desc ?gains))"
    by (rule sorted_wrt_mono_rel [rotated])
  then show ?thesis
    by (simp add: rgreedy_pick_def n sorted_wrt_map)
qed

lemma rgreedy_pick_top:
  assumes "i \<in> set (rgreedy_pick st s)" and "j \<in> set (remainSet st)"
    and "j \<notin> set (rgreedy_pick st s)"
  shows "score st j \<le> score st i"
proof -
  let ?gains = "eval_taylor_modular st (rows (grads_per_elem st) (remainSet st))"
  let ?idxs = "argsort_desc ?gains"
  obtain n where n: "py_slice_to s ?idxs = take n ?idxs"
    using py_slice_to_take by blast
  have gs: "?gains ! i = score st (remainSet st ! i)" if "i < length (remainSet st)" for i
    using that by (simp add: gains_scores)
  from assms(1) obtain p where p: "p \<in> set (take n ?idxs)" "i = remainSet st ! p"
    by (auto simp: rgreedy_pick_def n)
  from assms(2) obtain q where q: "q < length (remainSet st)" "j = remainSet st ! q"
    by (auto simp: in_set_conv_nth)
  then have "q \<in> set ?idxs" by (simp add: argsort_desc_set)
  then have "q \<in> set (take n ?idxs) \<union> set (drop n ?idxs)"
    by (metis append_take_drop_id set_append)
  moreover have "q \<notin> set (take n ?idxs)"
    using assms(3) q(2) by (auto simp: rgreedy_pick_def n)
  ultimately have qd: "q \<in> set (drop n ?idxs)" by simp
  have "sorted (map (\<lambda>i. - (?gains ! i)) (take n ?idxs @ drop n ?idxs))"
    using argsort_desc_sorted [of ?gains] by simp
  then have "- (?gains ! p) \<le> - (?gains ! q)"
    using p(1) qd by (auto simp: sorted_append simp del: append_take_drop_id)
  moreover have "p < length (remainSet st)"
    using p(1) by (auto dest!: in_set_takeD simp: argsort_desc_set)
  ultimately show ?thesis using p(2) q by (simp add: gs)
qed

subsection \<open>The RGreedy loop leaves the cache alone and accumulates the selected rows\<close>

lemma vec_add_assoc: "vec_add (vec_add a b) c = vec_add a (vec_add b c)"
proof (induction a arbitrary: b c)
  case Nil
  then show ?case by (simp add: vec_add_def)
next
  case (Cons x a)
  then show ?case by (cases b; cases c) (simp_all add: vec_add_def)
qed

lemma vec_add_zero_left: "length v = D \<Longrightarrow> vec_add (replicate D 0) v = v"
  by (induction v arbitrary: D) (auto simp: vec_add_def)

lemma length_vec_add: "length (vec_add a b) = min (length a) (length b)"
  by (simp add: vec_add_def)

lemma foldl_vec_add_shift:
  "\<forall>row \<in> set ys. length row = D \<Longrightarrow>
   foldl vec_add a ys = vec_add a (foldl vec_add (replicate D 0) ys)
   \<or> ys = []"
proof (induction ys arbitrary: a)
  case Nil
  then show ?case by simp
next
  case (Cons y ys)
  have y: "vec_add (replicate D 0) y = y" using Cons.prems by (simp add: vec_add_zero_left)
  show ?case
  proof (cases "ys = []")
    case True
    then show ?thesis by (simp add: y)
  next
    case False
    from Cons.IH [of "vec_add a y"] Cons.prems False
    have 1: "foldl vec_add (vec_add a y) ys = vec_add (vec_add a y) (foldl vec_add (replicate D 0) ys)"
      by simp
    from Cons.IH [of y] Cons.prems False
    have 2: "foldl vec_add y ys = vec_add y (foldl vec_add (replicate D 0) ys)"
      by simp
    show ?thesis by (simp add: y 1 2 vec_add_assoc)
  qed
qed

lemma vec_add_zero_right: "length v = D \<Longrightarrow> vec_add v (replicate D 0) = v"
  by (induction v arbitrary: D) (auto simp: vec_add_def)

lemma length_sum_dim0:
  "\<forall>row \<in> set xs. length row = D \<Longrightarrow> length (sum_dim0 D xs) = D"
proof -
  have "\<forall>row \<in> set xs. length row = D \<Longrightarrow> length a = D \<Longrightarrow> length (foldl vec_add a xs) = D" for a
    by (induction xs arbitrary: a) (simp_all add: length_vec_add)
  then show "\<forall>row \<in> set xs. length row = D \<Longrightarrow> length (sum_dim0 D xs) = D"
    by (simp add: sum_dim0_def)
qed

lemma sum_dim0_append:
  assumes "\<forall>row \<in> set xs. length row = D" and "\<forall>row \<in> set ys. length row = D"
  shows "sum_dim0 D (xs @ ys) = vec_add (sum_dim0 D xs) (sum_dim0 D ys)"
proof (cases "ys = []")
  case True
  have "vec_add (sum_dim0 D xs) (replicate D 0) = sum_dim0 D xs"
    using length_sum_dim0 [OF assms(1)] by (rule vec_add_zero_right)
  with True show ?thesis by (simp add: sum_dim0_def)
next
  case False
  with foldl_vec_add_shift [OF assms(2), of "foldl vec_add (replicate D 0) xs"]
  show ?thesis by (simp add: sum_dim0_def)
qed

lemma rows_in_range:
  assumes "rectangular m" and "set idxs \<subseteq> {0..<length m}"
  shows "\<forall>row \<in> set (rows m idxs). length row = width m"
  using assms by (auto simp: rectangular_def rows_def)

lemma rgreedy_step_via_pick:
  "rgreedy_step c s st =
     (let st1 = st\<lparr>greedySet := greedySet st @ rgreedy_pick st s,
                     remainSet := foldl (\<lambda>xs idx. remove1 idx xs) (remainSet st) (rgreedy_pick st s)\<rparr>
      in case (if 0 < numSelected st1
               then update_gradients_subset (Many (rgreedy_pick st s)) st1
               else (None, st1\<lparr>grads_currX :=
                       Fresh (sum_dim0 (width (grads_per_elem st1))
                                (rows (grads_per_elem st1) (rgreedy_pick st s)))\<rparr>)) of
           (Some e, st2) \<Rightarrow> (Some e, st2)
         | (None, st2) \<Rightarrow>
             (case refresh_grads_val c st2 of
                (Some e, st3) \<Rightarrow> (Some e, st3)
              | (None, st3) \<Rightarrow> (None, st3\<lparr>numSelected := numSelected st3 + s\<rparr>)))"
  by (simp add: rgreedy_step_def greedySet_extend_def remainSet_remove_all_def rgreedy_pick_def Let_def)

lemma rgreedy_step_owns:
  assumes "owns_sum c params st" and "partitioned st" and "rectangular (pool_gradients c params)"
    and "0 \<le> s"
  shows "owns_sum c params (snd (rgreedy_step c s st))"
proof -
  let ?m = "grads_per_elem st"
  define pick where "pick = rgreedy_pick st s"
  from assms(1) have m: "?m = pool_gradients c params" and n0: "0 \<le> numSelected st"
    and e: "numSelected st = 0 \<longrightarrow> greedySet st = []"
    and x: "grads_currX st = Fresh (selected_sum st) \<or> grads_currX st = Unbound \<and> numSelected st = 0"
    by (simp_all add: owns_sum_def)
  from assms(2) have d: "distinct (remainSet st)"
    and rg: "set (greedySet st) \<subseteq> {0..<length ?m}" "set (remainSet st) \<subseteq> {0..<length ?m}"
    by (auto simp: partitioned_def N_trn_def)
  have pk: "set pick \<subseteq> {0..<length ?m}"
    using rgreedy_pick_props(2) [OF d, of s] rg(2) unfolding pick_def by blast
  have rect: "rectangular ?m" using assms(3) m by simp
  have app: "sum_dim0 (width ?m) (rows ?m (greedySet st @ pick))
      = vec_add (sum_dim0 (width ?m) (rows ?m (greedySet st))) (sum_dim0 (width ?m) (rows ?m pick))"
    using sum_dim0_append [OF rows_in_range [OF rect rg(1)] rows_in_range [OF rect pk]]
    by (simp add: rows_def)
  note step = rgreedy_step_via_pick [of c s st, folded pick_def]
  show ?thesis
  proof (cases "0 < numSelected st")
    case True
    with x have f: "grads_currX st = Fresh (selected_sum st)" by auto
    with True m n0 assms(4) app show ?thesis
      by (simp add: step Let_def iadd_def refresh_grads_val_def deref_def update_grads_val_def
            owns_sum_def selected_sum_def)
  next
    case False
    with n0 have z: "numSelected st = 0" by simp
    with e have g: "greedySet st = []" by simp
    have "s = 0 \<longrightarrow> pick = []" by (simp add: pick_def rgreedy_pick_def py_slice_to_def)
    with z g m assms(4) show ?thesis
      by (simp add: step Let_def refresh_grads_val_def deref_def update_grads_val_def
            owns_sum_def selected_sum_def)
  qed
qed

lemma select_init_owns: "owns_sum c params (select_init c params st)"
  by (simp add: owns_sum_def select_init_fields)

lemma rgreedy_visits_owns:
  assumes "visits c budget (select_init c params st) st1"
    and "selection_type c = ''RGreedy''" and "0 \<le> selection_size_of c budget"
    and "rectangular (pool_gradients c params)"
  shows "owns_sum c params st1 \<and> partitioned st1"
  using assms(1) unfolding visits_def
proof (induction rule: rtranclp_induct)
  case base
  then show ?case by (simp add: select_init_owns select_init_partitioned)
next
  case (step y z)
  from step.hyps(2) assms(2) have z: "z = snd (rgreedy_step c (selection_size_of c budget) y)"
    by (simp add: iteration_def)
  from step.IH show ?case
    unfolding z using assms(3,4) by (simp add: rgreedy_step_owns rgreedy_step_partitioned)
qed

lemma rgreedy_cache_and_sum:
  assumes "visits c budget (select_init c params st) st1"
    and "selection_type c = ''RGreedy''" and "0 \<le> selection_size_of c budget"
    and "rectangular (pool_gradients c params)"
  shows "grads_per_elem st1 = pool_gradients c params"
    and "grads_currX st1 = Unbound \<or> deref st1 = Inr (selected_sum st1)"
  using rgreedy_visits_owns [OF assms] by (auto simp: owns_sum_def deref_def)

subsection \<open>RGreedy with a chunk of zero elements\<close>

lemma rgreedy_zero_chunk_visits:
  assumes "visits c budget (select_init c params st) st1"
    and "selection_type c = ''RGreedy''" and "selection_size_of c budget = 0"
  shows "numSelected st1 = 0 \<and> greedySet st1 = []"
  using assms(1) unfolding visits_def
proof (induction rule: rtranclp_induct)
  case base
  then show ?case by (simp add: select_init_fields)
next
  case (step y z)
  from step.hyps(2) assms(2,3) have z: "z = snd (rgreedy_step c 0 y)"
    by (simp add: iteration_def)
  from step.IH have "numSelected y \<le> 0" by simp
  from rgreedy_step_zero [OF this, of c] step.IH show ?case
    unfolding z by auto
qed

section \<open>Claims\<close>

subsection \<open>A budget of zero\<close>

text \<open>
  C9, as stated, fails for the Stochastic strategy: the sample size divides by the
  budget before the loop is reached, so a budget of zero raises
  \<^verbatim>\<open>ZeroDivisionError\<close> instead of returning the empty result.
\<close>

theorem zero_budget_stochastic_counterexample:
  "failure_of (select (example_selector two_rows ''Stochastic'' 15) 0 () fresh_state)
     = Some ZeroDivisionError"
  by (simp add: select_stochastic_zero example_selector_def failure_of_def)

text \<open>
  C9 (amended): for \<open>budget = 0\<close> and every strategy value other than Stochastic (for
  RGreedy with a chunk factor \<open>r \<noteq> 0\<close>), the selection loop executes no iteration:
  \<^verbatim>\<open>select\<close> returns the empty index sequence paired with a weight vector of length
  0, in the state that the statements before the loop leave.
\<close>

theorem zero_budget_returns_empty:
  assumes "selection_type c \<noteq> ''Stochastic''"
    and "selection_type c = ''RGreedy'' \<longrightarrow> r c \<noteq> 0"
  shows "select c 0 params st = Some (Inr ([], []), select_init c params st)"
  using assms by (rule select_budget_zero)

theorem zero_budget_returns_empty_witness:
  "selection_type (example_selector two_rows ''RGreedy'' 15) \<noteq> ''Stochastic''
   \<and> r (example_selector two_rows ''RGreedy'' 15) \<noteq> 0
   \<and> select (example_selector two_rows ''RGreedy'' 15) 0 () fresh_state
       = Some (Inr ([], []), select_init (example_selector two_rows ''RGreedy'' 15) () fresh_state)"
  using zero_budget_returns_empty [of "example_selector two_rows ''RGreedy'' 15" "()" fresh_state]
  by (simp add: example_selector_def)

subsection \<open>RGreedy with a budget below the chunk factor\<close>

text \<open>
  C10: for every budget with \<open>0 < budget < r\<close> under the RGreedy strategy,
  \<^verbatim>\<open>selection_size = int(budget / r)\<close> is 0; in every state the loop reaches no element
  has been committed and \<^verbatim>\<open>numSelected\<close> is still 0, below the budget; and
  \<^verbatim>\<open>select\<close> does not terminate.
\<close>

theorem rgreedy_budget_below_r_diverges:
  assumes "selection_type c = ''RGreedy''" and "0 < budget" and "budget < r c"
  shows "selection_size_of c budget = 0
       \<and> (\<forall>st1. visits c budget (select_init c params st) st1
              \<longrightarrow> numSelected st1 = 0 \<and> greedySet st1 = [])
       \<and> select c budget params st = None"
proof -
  have s: "selection_size_of c budget = 0"
    using assms(2,3) by (rule selection_size_small)
  with rgreedy_zero_chunk_visits [OF _ assms(1)] select_rgreedy_diverges [OF assms]
  show ?thesis by blast
qed

theorem rgreedy_budget_below_r_diverges_witness:
  "selection_type (example_selector two_rows ''RGreedy'' 15) = ''RGreedy''
   \<and> (0::int) < 2 \<and> 2 < r (example_selector two_rows ''RGreedy'' 15)
   \<and> selection_size_of (example_selector two_rows ''RGreedy'' 15) 2 = 0
   \<and> select (example_selector two_rows ''RGreedy'' 15) 2 () fresh_state = None"
  using rgreedy_budget_below_r_diverges [of "example_selector two_rows ''RGreedy'' 15" 2 "()" fresh_state]
  by (simp add: example_selector_def)

subsection \<open>Budget conformance of the Naive and the Stochastic strategy\<close>

text \<open>
  Where the two strategies return. For every valid budget (\<open>0 < budget \<le> N\<close>),
  whatever the gradient cache and the validation gradient, the Naive strategy returns an
  index sequence of length \<open>budget\<close>, and so does the Stochastic strategy when its
  sample size is at most \<open>N - budget + 1\<close>, the size of the remaining set in the last
  iteration. With a larger sample size a draw raises (\<open>select_stochastic_sample_error\<close>).
\<close>

lemma budget_conformance:
  assumes "0 < budget" and "budget \<le> int (length (pool_gradients c params))"
    and "selection_type c = ''Naive''
         \<or> selection_type c = ''Stochastic''
           \<and> subset_size_of (select_init c params st) budget
               \<le> int (length (pool_gradients c params)) - budget + 1"
  shows "map_option length (indices_of (select c budget params st)) = Some (nat budget)"
  using assms(3)
proof
  assume n: "selection_type c = ''Naive''"
  from select_naive_ok [OF n _ assms(2), of st] assms(1)
  obtain idx st' where "select c budget params st = Some (Inr (idx, replicate (nat budget) 1), st')"
    "length idx = nat budget"
    by auto
  then show ?thesis by simp
next
  assume s: "selection_type c = ''Stochastic''
           \<and> subset_size_of (select_init c params st) budget
               \<le> int (length (pool_gradients c params)) - budget + 1"
  have "0 < subset_size_of (select_init c params st) budget"
    using subset_size_ge_4 [of budget "select_init c params st"] assms(1,2)
    by (simp add: select_init_fields)
  with select_stochastic_ok [OF _ assms(1,2), of st] s
  obtain idx st' where "select c budget params st = Some (Inr (idx, replicate (nat budget) 1), st')"
    "length idx = nat budget"
    by auto
  then show ?thesis by simp
qed

text \<open>
  C1 does not hold of the Stochastic strategy: on valid budgets the call raises where
  the claim, and the Naive strategy, return \<open>budget\<close> indices. The sample size
  \<^verbatim>\<open>int((N / budget) * math.log(100))\<close> is computed once and never clamped to the
  remaining set, and \<^verbatim>\<open>np.random.choice(..., replace=False)\<close> raises when asked for
  more elements than there are. For a pool of two elements and \<open>budget = 1\<close> the sample
  size is 9: the first draw raises and no index sequence is returned, while the Naive
  strategy on the same pool and budget returns one index.
\<close>

theorem stochastic_raises_on_valid_budget:
  "length (pool_gradients (example_selector two_rows ''Stochastic'' 15) ()) = 2
   \<and> subset_size_of (select_init (example_selector two_rows ''Stochastic'' 15) () fresh_state) 1 = 9
   \<and> failure_of (select (example_selector two_rows ''Stochastic'' 15) 1 () fresh_state)
       = Some SampleError
   \<and> indices_of (select (example_selector two_rows ''Stochastic'' 15) 1 () fresh_state) = None
   \<and> map_option length (indices_of (select (example_selector two_rows ''Naive'' 15) 1 () fresh_state))
       = Some 1"
proof -
  have l: "length (pool_gradients (example_selector two_rows ''Stochastic'' 15) ()) = 2"
    by (simp add: example_selector_def two_rows_def)
  have k: "subset_size_of (select_init (example_selector two_rows ''Stochastic'' 15) () fresh_state) 1 = 9"
    by (rule subset_size_double) (simp_all add: select_init_fields example_selector_def two_rows_def)
  then have "select (example_selector two_rows ''Stochastic'' 15) 1 () fresh_state
      = Some (Inl SampleError, select_init (example_selector two_rows ''Stochastic'' 15) () fresh_state)"
    by (intro select_stochastic_too_large) (simp_all add: example_selector_def two_rows_def)
  then have f: "failure_of (select (example_selector two_rows ''Stochastic'' 15) 1 () fresh_state)
       = Some SampleError
     \<and> indices_of (select (example_selector two_rows ''Stochastic'' 15) 1 () fresh_state) = None"
    by (simp add: failure_of_def indices_of_def)
  have n: "map_option length
        (indices_of (select (example_selector two_rows ''Naive'' 15) 1 () fresh_state)) = Some 1"
    using budget_conformance [of 1 "example_selector two_rows ''Naive'' 15" "()" fresh_state]
    by (simp add: example_selector_def two_rows_def)
  from l k f n show ?thesis by (intro conjI) simp_all
qed

subsection \<open>The selected and the remaining set\<close>




subsection \<open>Determinism of the Naive strategy\<close>

text \<open>
  C8: \<^verbatim>\<open>select\<close> is deterministic under the Naive strategy. Two runs with the same
  budget and the same model parameters, on the same pool and validation set (the same
  selector \<open>c\<close>), give the same result, whatever state the object and the random
  generator are in before each run; in particular a second run that starts in the
  state the first run left returns the same ordered index sequence.
\<close>

theorem naive_two_run_determinism:
  assumes "selection_type c = ''Naive''"
  shows "map_option fst (select c budget params st) = map_option fst (select c budget params st')
       \<and> (\<forall>res st1. select c budget params st = Some (res, st1)
              \<longrightarrow> map_option fst (select c budget params st1) = Some res)"
proof -
  have "map_option fst (select c budget params st1) = Some res"
    if "select c budget params st = Some (res, st1)" for res st1
    using select_naive_eq [OF assms, of budget params st1 st] that by simp
  with select_naive_eq [OF assms] show ?thesis by blast
qed

theorem naive_two_run_determinism_witness:
  "selection_type (example_selector two_rows ''Naive'' 15) = ''Naive''
   \<and> map_option fst (select (example_selector two_rows ''Naive'' 15) 2 () fresh_state)
     = map_option fst (select (example_selector two_rows ''Naive'' 15) 2 () used_state)"
  using naive_two_run_determinism [of "example_selector two_rows ''Naive'' 15" 2 "()" fresh_state used_state]
  by (simp add: example_selector_def)

subsection \<open>The Stochastic iteration\<close>

text \<open>
  C7, as stated, gives the sample size as the product rounded. The code truncates it:
  for a pool of one element and \<open>budget = 1\<close> the sample size is
  \<^verbatim>\<open>int(1.0 * math.log(100))\<close>, which is 4, while the product rounds to 5, in exact
  arithmetic and in double precision alike.
\<close>

theorem subset_size_round_counterexample:
  "subset_size_of (select_init (example_selector one_row ''Stochastic'' 15) () fresh_state) 1 = 4
   \<and> round (real (length one_row) / real_of_int 1 * ln 100) = 5
   \<and> round (to_double (to_double (real (length one_row) / real_of_int 1) * math_log_100)) = 5"
proof -
  have "subset_size_of (select_init (example_selector one_row ''Stochastic'' 15) () fresh_state) 1 = 4"
    by (rule subset_size_equal) (simp_all add: select_init_fields example_selector_def one_row_def)
  moreover have "round (real (length one_row) / real_of_int 1 * ln 100) = 5"
    using round_ln_100 by (simp add: one_row_def)
  moreover have "round (math_log_100) = 5"
    by (simp add: round_def floor_eq_iff math_log_100_def)
  then have "round (to_double (to_double (real (length one_row) / real_of_int 1) * math_log_100)) = 5"
    by (simp add: one_row_def to_double_1 to_double_log_100)
  ultimately show ?thesis by (intro conjI)
qed

text \<open>
  C7 (amended): in the Stochastic strategy the sample size is
  \<^verbatim>\<open>subset_size = int((|pool| / budget) * math.log(100))\<close>: the quotient and the
  product are computed in double precision and the product is truncated, not rounded.
  Every iteration that starts at a loop head of a call with \<open>budget > 0\<close>, with
  \<open>subset_size > 0\<close> and at least \<open>subset_size\<close> elements in the remaining set, draws
  without replacement a sample of \<open>subset_size\<close> distinct elements of the remaining set
  and moves the single argmax-scoring element of that sample from the remaining to the
  selected set. (The sample size is at least 4 for a valid budget: \<open>subset_size_ge_4\<close>.)
\<close>

theorem stochastic_iteration:
  assumes "selection_type c = ''Stochastic''" and "0 < budget"
    and "visits c budget (select_init c params s) st"
    and "0 < subset_size_of (select_init c params s) budget"
    and "subset_size_of (select_init c params s) budget \<le> int (length (remainSet st))"
  shows "subset_size_of (select_init c params s) budget
           = \<lfloor>to_double
               (to_double (real (length (pool_gradients c params)) / real_of_int budget)
                 * math_log_100)\<rfloor>
       \<and> (\<exists>st'. stochastic_step c (subset_size_of (select_init c params s) budget) st = (None, st')
             \<and> length (draw (rng st) (remainSet st) (nat (subset_size_of (select_init c params s) budget)))
                 = nat (subset_size_of (select_init c params s) budget)
             \<and> distinct (draw (rng st) (remainSet st) (nat (subset_size_of (select_init c params s) budget)))
             \<and> set (draw (rng st) (remainSet st) (nat (subset_size_of (select_init c params s) budget)))
                 \<subseteq> set (remainSet st)
             \<and> (\<exists>b \<in> set (draw (rng st) (remainSet st) (nat (subset_size_of (select_init c params s) budget))).
                   greedySet st' = greedySet st @ [b] \<and> remainSet st' = remove1 b (remainSet st)
                   \<and> (\<forall>i \<in> set (draw (rng st) (remainSet st)
                                   (nat (subset_size_of (select_init c params s) budget))).
                         score st i \<le> score st b)))"
proof -
  let ?st0 = "select_init c params s"
  let ?k = "subset_size_of ?st0 budget"
  let ?sample = "draw (rng st) (remainSet st) (nat ?k)"
  have f: "?k = \<lfloor>to_double
               (to_double (real (length (pool_gradients c params)) / real_of_int budget)
                 * math_log_100)\<rfloor>"
    using subset_size_floor [OF assms(2), of ?st0] by (simp add: select_init_fields)
  from visits_invariant [OF assms(3) select_init_partitioned]
  have p: "partitioned st" by simp
  have cn: "counted st"
    using assms(3,1) select_init_counted by (rule stochastic_visits_counted)
  from stochastic_step_props [OF p cn assms(4,5), of c]
  obtain st' where step: "stochastic_step c ?k st = (None, st')" by blast
  note sc = stochastic_step_commit [OF step]
  note b = sc [THEN conjunct2, THEN conjunct2]
  have l: "length ?sample = nat ?k"
    using assms(4,5) by (simp add: draw_length)
  have d: "distinct (remainSet st)" using p by (simp add: partitioned_def)
  have "stochastic_step c ?k st = (None, st')
      \<and> length ?sample = nat ?k \<and> distinct ?sample \<and> set ?sample \<subseteq> set (remainSet st)
      \<and> (\<exists>b \<in> set ?sample.
            greedySet st' = greedySet st @ [b] \<and> remainSet st' = remove1 b (remainSet st)
            \<and> (\<forall>i \<in> set ?sample. score st i \<le> score st b))"
    by (intro conjI) (rule step, rule l, rule draw_distinct [OF d], rule draw_subset, rule b)
  then have "\<exists>st'. stochastic_step c ?k st = (None, st')
      \<and> length ?sample = nat ?k \<and> distinct ?sample \<and> set ?sample \<subseteq> set (remainSet st)
      \<and> (\<exists>b \<in> set ?sample.
            greedySet st' = greedySet st @ [b] \<and> remainSet st' = remove1 b (remainSet st)
            \<and> (\<forall>i \<in> set ?sample. score st i \<le> score st b))"
    by (rule exI)
  with f show ?thesis by (rule conjI)
qed

theorem stochastic_iteration_witness:
  "selection_type (example_selector (replicate 16 [1, 0]) ''Stochastic'' 15) = ''Stochastic''
   \<and> (0::int) < 8
   \<and> visits (example_selector (replicate 16 [1, 0]) ''Stochastic'' 15) 8
        (select_init (example_selector (replicate 16 [1, 0]) ''Stochastic'' 15) () fresh_state)
        (select_init (example_selector (replicate 16 [1, 0]) ''Stochastic'' 15) () fresh_state)
   \<and> subset_size_of (select_init (example_selector (replicate 16 [1, 0]) ''Stochastic'' 15) () fresh_state) 8
       = 9
   \<and> length (remainSet (select_init (example_selector (replicate 16 [1, 0]) ''Stochastic'' 15) () fresh_state))
       = 16
   \<and> (\<exists>st'. stochastic_step (example_selector (replicate 16 [1, 0]) ''Stochastic'' 15)
          (subset_size_of (select_init (example_selector (replicate 16 [1, 0]) ''Stochastic'' 15) () fresh_state) 8)
          (select_init (example_selector (replicate 16 [1, 0]) ''Stochastic'' 15) () fresh_state)
        = (None, st'))
   \<and> length (draw (rng (select_init (example_selector (replicate 16 [1, 0]) ''Stochastic'' 15) () fresh_state))
        (remainSet (select_init (example_selector (replicate 16 [1, 0]) ''Stochastic'' 15) () fresh_state))
        (nat (subset_size_of
          (select_init (example_selector (replicate 16 [1, 0]) ''Stochastic'' 15) () fresh_state) 8)))
     = 9"
proof -
  let ?c = "example_selector (replicate 16 [1, 0]) ''Stochastic'' 15"
  let ?st0 = "select_init ?c () fresh_state"
  have ty: "selection_type ?c = ''Stochastic''" and len: "length (pool_gradients ?c ()) = 16"
    by (simp_all add: example_selector_def)
  have k: "subset_size_of ?st0 8 = 9"
    by (rule subset_size_double) (simp_all add: select_init_fields len)
  have b: "(0::int) < 8" by simp
  have v: "visits ?c 8 ?st0 ?st0" by (rule visits_refl)
  have r: "length (remainSet ?st0) = 16" by (simp add: select_init_fields len)
  have p: "0 < subset_size_of ?st0 8" by (simp add: k)
  have le: "subset_size_of ?st0 8 \<le> int (length (remainSet ?st0))" by (simp add: k r)
  note t = stochastic_iteration [OF ty b v p le]
  from t [THEN conjunct2]
  obtain st' where s: "stochastic_step ?c (subset_size_of ?st0 8) ?st0 = (None, st')"
    and l: "length (draw (rng ?st0) (remainSet ?st0) (nat (subset_size_of ?st0 8)))
              = nat (subset_size_of ?st0 8)"
    by blast
  have "nat (subset_size_of ?st0 8) = 9" by (simp add: k)
  with l have l9: "length (draw (rng ?st0) (remainSet ?st0) (nat (subset_size_of ?st0 8))) = 9"
    by (simp only:)
  from s have e: "\<exists>st'. stochastic_step ?c (subset_size_of ?st0 8) ?st0 = (None, st')"
    by (rule exI)
  show ?thesis
    by (intro conjI) (rule ty, rule b, rule v, rule k, rule r, rule e, rule l9)
qed

subsection \<open>Invalid budgets and strategies\<close>

text \<open>
  C6, as stated, fails: \<^verbatim>\<open>select\<close> validates nothing. With a strategy value that is
  none of the three names, no branch is taken and the call returns normally: an empty
  index sequence and \<open>budget\<close> unit weights.
\<close>

theorem unrecognized_strategy_counterexample:
  "failure_of (select (example_selector two_rows ''Greedy'' 15) 1 () fresh_state) = None
   \<and> indices_of (select (example_selector two_rows ''Greedy'' 15) 1 () fresh_state) = Some []
   \<and> weights_of (select (example_selector two_rows ''Greedy'' 15) 1 () fresh_state) = Some [1]"
proof -
  have "select (example_selector two_rows ''Greedy'' 15) 1 () fresh_state
      = Some (Inr ([], replicate (nat 1) 1),
          select_init (example_selector two_rows ''Greedy'' 15) () fresh_state)"
    by (rule select_unrecognized) (simp_all add: example_selector_def)
  then show ?thesis by (simp add: failure_of_def indices_of_def weights_of_def)
qed

text \<open>
  C6 (amended): \<^verbatim>\<open>select\<close> does not validate its configuration. Every call that
  returns or fails has first loaded the parameters and computed the gradient cache and
  the validation gradient. An unrecognized strategy value with \<open>budget \<ge> 0\<close> makes the
  call return the empty index sequence with \<open>budget\<close> unit weights. A budget greater
  than the pool size under Naive fails only in the loop, at the argmax over the empty
  remaining set, after all \<open>N\<close> elements have been committed. A negative budget fails
  only after the loop, when the weight vector is created (for RGreedy with \<open>r \<noteq> 0\<close>).
  A call that fails returns no selected set.
\<close>

theorem no_validation_before_gradients:
  "(\<forall>res st'. select c budget params st = Some (res, st')
       \<longrightarrow> calls st' = calls st @ [UpdateModel, ComputeGradients, ValidationForward])
   \<and> (selection_type c \<noteq> ''RGreedy'' \<and> selection_type c \<noteq> ''Stochastic''
        \<and> selection_type c \<noteq> ''Naive'' \<and> 0 \<le> budget
       \<longrightarrow> select c budget params st
             = Some (Inr ([], replicate (nat budget) 1), select_init c params st))
   \<and> (selection_type c = ''Naive'' \<and> int (length (pool_gradients c params)) < budget
       \<longrightarrow> failure_of (select c budget params st) = Some ArgmaxEmpty
           \<and> map_option numSelected (state_of (select c budget params st))
               = Some (int (length (pool_gradients c params))))
   \<and> (budget < 0 \<and> (selection_type c = ''RGreedy'' \<longrightarrow> r c \<noteq> 0)
       \<longrightarrow> failure_of (select c budget params st) = Some NegativeDimension
           \<and> state_of (select c budget params st) = Some (select_init c params st))
   \<and> (\<forall>e. failure_of (select c budget params st) = Some e
       \<longrightarrow> indices_of (select c budget params st) = None)"
proof (intro conjI allI impI)
  fix res st'
  assume "select c budget params st = Some (res, st')"
  then show "calls st' = calls st @ [UpdateModel, ComputeGradients, ValidationForward]"
    by (rule select_calls)
next
  assume "selection_type c \<noteq> ''RGreedy'' \<and> selection_type c \<noteq> ''Stochastic''
        \<and> selection_type c \<noteq> ''Naive'' \<and> 0 \<le> budget"
  then show "select c budget params st
      = Some (Inr ([], replicate (nat budget) 1), select_init c params st)"
    by (intro select_unrecognized) simp_all
next
  assume a: "selection_type c = ''Naive'' \<and> int (length (pool_gradients c params)) < budget"
  then obtain st' where s: "select c budget params st = Some (Inl ArgmaxEmpty, st')"
    and n: "numSelected st' = int (length (pool_gradients c params))"
    using select_naive_exhausts [of c params budget st] by blast
  from s show "failure_of (select c budget params st) = Some ArgmaxEmpty"
    by (simp add: failure_of_def)
  from s n show "map_option numSelected (state_of (select c budget params st))
      = Some (int (length (pool_gradients c params)))"
    by (simp add: state_of_def)
next
  assume a: "budget < 0 \<and> (selection_type c = ''RGreedy'' \<longrightarrow> r c \<noteq> 0)"
  then have s: "select c budget params st = Some (Inl NegativeDimension, select_init c params st)"
    by (intro select_negative_budget) simp_all
  then show "failure_of (select c budget params st) = Some NegativeDimension"
    by (simp add: failure_of_def)
  from s show "state_of (select c budget params st) = Some (select_init c params st)"
    by (simp add: state_of_def)
next
  fix e
  assume "failure_of (select c budget params st) = Some e"
  then show "indices_of (select c budget params st) = None"
    by (rule failure_no_indices)
qed

theorem no_validation_before_gradients_witness:
  "select (example_selector two_rows ''Greedy'' 15) 3 () fresh_state
     = Some (Inr ([], replicate (nat 3) 1),
         select_init (example_selector two_rows ''Greedy'' 15) () fresh_state)
   \<and> calls (select_init (example_selector two_rows ''Greedy'' 15) () fresh_state)
     = calls fresh_state @ [UpdateModel, ComputeGradients, ValidationForward]
   \<and> failure_of (select (example_selector two_rows ''Naive'' 15) 3 () fresh_state) = Some ArgmaxEmpty
   \<and> map_option numSelected (state_of (select (example_selector two_rows ''Naive'' 15) 3 () fresh_state))
     = Some 2
   \<and> indices_of (select (example_selector two_rows ''Naive'' 15) 3 () fresh_state) = None
   \<and> failure_of (select (example_selector two_rows ''Naive'' 15) (- 1) () fresh_state)
     = Some NegativeDimension"
proof -
  let ?u = "example_selector two_rows ''Greedy'' 15"
  let ?n = "example_selector two_rows ''Naive'' 15"
  note u = no_validation_before_gradients [of ?u 3 "()" fresh_state]
  note n = no_validation_before_gradients [of ?n 3 "()" fresh_state]
  note m = no_validation_before_gradients [of ?n "- 1" "()" fresh_state]
  have tu: "selection_type ?u = ''Greedy''" and tn: "selection_type ?n = ''Naive''"
    and len: "length (pool_gradients ?n ()) = 2"
    by (simp_all add: example_selector_def two_rows_def)
  have 1: "select ?u 3 () fresh_state
      = Some (Inr ([], replicate (nat 3) 1), select_init ?u () fresh_state)"
    using u [THEN conjunct2, THEN conjunct1] by (simp add: tu)
  have 2: "calls (select_init ?u () fresh_state)
      = calls fresh_state @ [UpdateModel, ComputeGradients, ValidationForward]"
    using u [THEN conjunct1] 1 by blast
  have 3: "failure_of (select ?n 3 () fresh_state) = Some ArgmaxEmpty
      \<and> map_option numSelected (state_of (select ?n 3 () fresh_state)) = Some 2"
    using n [THEN conjunct2, THEN conjunct2, THEN conjunct1] by (simp add: tn len)
  have 4: "indices_of (select ?n 3 () fresh_state) = None"
    using n [THEN conjunct2, THEN conjunct2, THEN conjunct2, THEN conjunct2] 3 by blast
  have 5: "failure_of (select ?n (- 1) () fresh_state) = Some NegativeDimension"
    using m [THEN conjunct2, THEN conjunct2, THEN conjunct2, THEN conjunct1] by (simp add: tn)
  from 1 2 3 4 5 show ?thesis by (simp only:) 
qed

subsection \<open>Budget conformance of the RGreedy strategy\<close>

text \<open>
  C2, as stated, fails: when the chunk \<open>s = \<lfloor>budget / r\<rfloor>\<close> does not divide the budget, the
  loop overshoots by \<open>s - budget mod s\<close>, not by \<open>budget mod s\<close>. With \<open>budget = 7\<close>,
  \<open>r = 2\<close> and a pool of nine elements the chunk is 3, three iterations run and nine
  indices are returned, neither 7 nor \<open>7 + 7 mod 3 = 8\<close>.
\<close>

theorem rgreedy_overshoot_counterexample:
  "map_option length
     (indices_of (select (example_selector (replicate 9 [1, 0]) ''RGreedy'' 2) 7 () fresh_state))
     = Some 9
   \<and> (7 :: int) + 7 mod (7 div 2) = 8"
proof -
  let ?c = "example_selector (replicate 9 [1, 0]) ''RGreedy'' 2"
  have "selection_type ?c = ''RGreedy''" "(0::int) < 7" "0 < r ?c" "r ?c \<le> 7"
    by (simp_all add: example_selector_def)
  from select_rgreedy_length [OF this, of "()" fresh_state]
  obtain idx st' where "select ?c 7 () fresh_state = Some (Inr (idx, replicate (nat 7) 1), st')"
    and "length idx = min (length (pool_gradients ?c ()))
           (nat (if 7 mod (7 div r ?c) = 0 then 7 else 7 + (7 div r ?c - 7 mod (7 div r ?c))))"
    by blast
  then show ?thesis by (simp add: example_selector_def)
qed

text \<open>
  C2 (amended): for every budget and chunk factor \<open>r\<close> with \<open>0 < r \<le> budget\<close>, so that
  \<open>selection_size = \<lfloor>budget / r\<rfloor> \<ge> 1\<close>, \<^verbatim>\<open>select\<close> with the RGreedy strategy returns
  an index sequence whose length is \<open>budget\<close> when \<open>selection_size\<close> divides the budget
  and \<open>budget + (selection_size - budget mod selection_size)\<close> otherwise, capped at the
  pool size \<open>N\<close>. Each iteration commits the \<open>min(selection_size, |remaining|)\<close>
  highest-scoring remaining elements, in descending order of score.
\<close>

theorem rgreedy_budget_conformance:
  assumes "selection_type c = ''RGreedy''" and "0 < budget" and "0 < r c" and "r c \<le> budget"
  shows "selection_size_of c budget = budget div r c
       \<and> map_option length (indices_of (select c budget params st))
           = Some (min (length (pool_gradients c params))
                    (nat (if budget mod (budget div r c) = 0 then budget
                          else budget + (budget div r c - budget mod (budget div r c)))))
       \<and> (\<forall>st1. greedySet (snd (rgreedy_step c (selection_size_of c budget) st1))
                   = greedySet st1 @ rgreedy_pick st1 (selection_size_of c budget)
               \<and> length (rgreedy_pick st1 (selection_size_of c budget))
                   = min (nat (selection_size_of c budget)) (length (remainSet st1))
               \<and> sorted_wrt (\<lambda>i j. score st1 j \<le> score st1 i)
                   (rgreedy_pick st1 (selection_size_of c budget))
               \<and> (\<forall>i \<in> set (rgreedy_pick st1 (selection_size_of c budget)).
                    \<forall>j \<in> set (remainSet st1) - set (rgreedy_pick st1 (selection_size_of c budget)).
                      score st1 j \<le> score st1 i))"
proof -
  have ss: "selection_size_of c budget = budget div r c"
    using assms(2,3) by (simp add: selection_size_div)
  have s0: "0 \<le> selection_size_of c budget"
    using assms(2,3) by (simp add: ss pos_imp_zdiv_nonneg_iff)
  from select_rgreedy_length [OF assms, of params st]
  have len: "map_option length (indices_of (select c budget params st))
           = Some (min (length (pool_gradients c params))
                    (nat (if budget mod (budget div r c) = 0 then budget
                          else budget + (budget div r c - budget mod (budget div r c)))))"
    by auto
  have it: "greedySet (snd (rgreedy_step c (selection_size_of c budget) st1))
                   = greedySet st1 @ rgreedy_pick st1 (selection_size_of c budget)
               \<and> length (rgreedy_pick st1 (selection_size_of c budget))
                   = min (nat (selection_size_of c budget)) (length (remainSet st1))
               \<and> sorted_wrt (\<lambda>i j. score st1 j \<le> score st1 i)
                   (rgreedy_pick st1 (selection_size_of c budget))
               \<and> (\<forall>i \<in> set (rgreedy_pick st1 (selection_size_of c budget)).
                    \<forall>j \<in> set (remainSet st1) - set (rgreedy_pick st1 (selection_size_of c budget)).
                      score st1 j \<le> score st1 i)" for st1 :: "'a state"
    using rgreedy_step_frame(1) [of c "selection_size_of c budget" st1]
      rgreedy_pick_length [OF s0, of st1] rgreedy_pick_sorted [of st1 "selection_size_of c budget"]
      rgreedy_pick_top [of _ st1 "selection_size_of c budget"]
    by (intro conjI) auto
  from ss len it show ?thesis by blast
qed

theorem rgreedy_budget_conformance_witness:
  "selection_type (example_selector (replicate 9 [1, 0]) ''RGreedy'' 2) = ''RGreedy''
   \<and> 0 < r (example_selector (replicate 9 [1, 0]) ''RGreedy'' 2)
   \<and> r (example_selector (replicate 9 [1, 0]) ''RGreedy'' 2) \<le> 7
   \<and> selection_size_of (example_selector (replicate 9 [1, 0]) ''RGreedy'' 2) 7 = 3
   \<and> map_option length
       (indices_of (select (example_selector (replicate 9 [1, 0]) ''RGreedy'' 2) 7 () fresh_state))
     = Some 9"
proof -
  let ?c = "example_selector (replicate 9 [1, 0]) ''RGreedy'' 2"
  have h: "selection_type ?c = ''RGreedy''" "(0::int) < 7" "0 < r ?c" "r ?c \<le> 7"
    by (simp_all add: example_selector_def)
  note t = rgreedy_budget_conformance [OF h, of "()" fresh_state]
  have v: "r ?c = 2" "length (pool_gradients ?c ()) = 9" by (simp_all add: example_selector_def)
  have 1: "selection_size_of ?c 7 = 3" using t [THEN conjunct1] by (simp add: v)
  have 2: "map_option length (indices_of (select ?c 7 () fresh_state)) = Some 9"
    using t [THEN conjunct2, THEN conjunct1] by (simp add: v)
  from h 1 2 show ?thesis by (simp only:) 
qed

subsection \<open>The gradient cache and the cumulative selected gradient\<close>

text \<open>
  C4 states that the gradient cache is read-only after its computation: no step of a
  selection loop modifies a row of \<^verbatim>\<open>grads_per_elem\<close>. The code does not keep to it in
  the Naive loop, nor in the Stochastic loop, which has the same statements: the first
  commit binds \<^verbatim>\<open>grads_currX\<close> to a view of the cache row of the first selected
  element, and every later \<^verbatim>\<open>grads_X += grads_e\<close> writes through the view. On the pool
  with rows \<open>(1, 0)\<close> and \<open>(0, 1)\<close> and \<open>budget = 2\<close>, element 1 is selected first, then
  element 0, and the call ends with row 1 of the cache overwritten by \<open>(1, 1)\<close>. The
  RGreedy loop accumulates into a tensor of its own and leaves the cache as computed
  (\<open>rgreedy_cache_and_sum\<close>).
\<close>

theorem naive_overwrites_cache_row:
  "map_option grads_per_elem
     (state_of (select (example_selector two_rows ''Naive'' 15) 2 () fresh_state))
     = Some [[1, 0], [1, 1]]
   \<and> pool_gradients (example_selector two_rows ''Naive'' 15) () = [[1, 0], [0, 1]]"
proof -
  from naive_two_rows_run obtain st' where
    "select (example_selector two_rows ''Naive'' 15) 2 () fresh_state = Some (Inr ([1, 0], [1, 1]), st')"
    "grads_per_elem st' = [[1, 0], [1, 1]]"
    by auto
  then show ?thesis
    by (simp add: state_of_def) (simp add: example_selector_def two_rows_def)
qed

text \<open>
  C3 states that after every iteration \<^verbatim>\<open>grads_currX\<close> equals the sum of the cache
  rows, as they stand at that moment, over the selected set. In the same Naive run,
  after the second iteration the selected set is \<open>[1, 0]\<close> and \<^verbatim>\<open>grads_currX\<close> is
  \<open>(1, 1)\<close>, the sum of the two rows as they were computed; but row 1 of the cache has
  itself become \<open>(1, 1)\<close>, so the rows of the selected set now sum to \<open>(2, 1)\<close>. The
  RGreedy loop keeps the invariant (\<open>rgreedy_cache_and_sum\<close>).
\<close>

theorem naive_cumulative_gradient_not_sum:
  "indices_of (select (example_selector two_rows ''Naive'' 15) 2 () fresh_state) = Some [1, 0]
   \<and> map_option deref (state_of (select (example_selector two_rows ''Naive'' 15) 2 () fresh_state))
     = Some (Inr [1, 1])
   \<and> map_option selected_sum
        (state_of (select (example_selector two_rows ''Naive'' 15) 2 () fresh_state))
     = Some [2, 1]"
proof -
  from naive_two_rows_run obtain st' where
    s: "select (example_selector two_rows ''Naive'' 15) 2 () fresh_state = Some (Inr ([1, 0], [1, 1]), st')"
    and f: "grads_per_elem st' = [[1, 0], [1, 1]]" "greedySet st' = [1, 0]" "grads_currX st' = RowView 1"
    by auto
  have "deref st' = Inr [1, 1]" using f by (simp add: deref_def)
  moreover have "selected_sum st' = [2, 1]"
    using f by (simp add: selected_sum_def sum_dim0_def rows_def width_def vec_add_def numeral_2_eq_2)
  ultimately show ?thesis using s by (simp add: state_of_def)
qed

end
